theory Spec2Isabelle
  imports Complex_Main "HOL-Library.AList" "HOL-Library.Multiset"
begin

section \<open>JSON values and the Python operations the code applies to them\<close>

text \<open>
  Everything \<^verbatim>\<open>src/tmdb.py\<close> handles is a value parsed from JSON: the bodies of the
  two TMDb responses, the search cache file and the title cache files. A Python dict keeps
  its keys unique and in insertion order, so an object is an association list that is read
  with \<open>map_of\<close> and written with \<open>AList.update\<close>. Python's \<open>str\<close> is modelled
  as \<open>string\<close>, restricted to ASCII text: \<open>lower\<close>, \<open>strip\<close> and \<open>isdigit\<close>
  act on the ASCII letters, whitespace and digits. A JSON number with a fraction or an
  exponent is a finite \<open>JFloat\<close>.
\<close>

datatype json =
    JNull
  | JBool bool
  | JInt int
  | JFloat rat
  | JStr string
  | JList "json list"
  | JObj "(string \<times> json) list"

type_synonym pydict = "(string \<times> json) list"

text \<open>The exceptions that can leave the functions of the module.\<close>

datatype py_error = TransportError | KeyError | TypeError | ValueError | AttributeError

text \<open>\<^verbatim>\<open>d.get(k)\<close>: the value, or \<^verbatim>\<open>None\<close> when the key is missing.\<close>

definition dict_get :: "pydict \<Rightarrow> string \<Rightarrow> json" where
  "dict_get d k = (case map_of d k of None \<Rightarrow> JNull | Some v \<Rightarrow> v)"

text \<open>\<^verbatim>\<open>d.get(k, default)\<close>.\<close>

definition dict_get_default :: "pydict \<Rightarrow> string \<Rightarrow> json \<Rightarrow> json" where
  "dict_get_default d k dflt = (case map_of d k of None \<Rightarrow> dflt | Some v \<Rightarrow> v)"

text \<open>\<^verbatim>\<open>d[k]\<close> raises \<^verbatim>\<open>KeyError\<close> on a missing key.\<close>

definition dict_item :: "pydict \<Rightarrow> string \<Rightarrow> py_error + json" where
  "dict_item d k = (case map_of d k of None \<Rightarrow> Inl KeyError | Some v \<Rightarrow> Inr v)"

text \<open>Truth value testing, as \<^verbatim>\<open>not x\<close> and \<^verbatim>\<open>x or y\<close> use it.\<close>

fun truthy :: "json \<Rightarrow> bool" where
  "truthy JNull = False"
| "truthy (JBool b) = b"
| "truthy (JInt n) = (n \<noteq> 0)"
| "truthy (JFloat q) = (q \<noteq> 0)"
| "truthy (JStr s) = (s \<noteq> [])"
| "truthy (JList xs) = (xs \<noteq> [])"
| "truthy (JObj d) = (d \<noteq> [])"

definition py_or :: "json \<Rightarrow> json \<Rightarrow> json" where
  "py_or x y = (if truthy x then x else y)"

subsection \<open>Characters and decimal numerals\<close>

text \<open>\<^verbatim>\<open>c.isdigit()\<close>, \<^verbatim>\<open>c.isspace()\<close> (tab, line feed, vertical tab, form feed,
  carriage return, the four separators 0x1C to 0x1F and the space) and \<^verbatim>\<open>c.lower()\<close>.\<close>

definition is_digit :: "char \<Rightarrow> bool" where
  "is_digit c = (c \<in> set ''0123456789'')"

definition is_space :: "char \<Rightarrow> bool" where
  "is_space c = (c \<in> set [CHR 0x09, CHR 0x0A, CHR 0x0B, CHR 0x0C, CHR 0x0D,
                            CHR 0x1C, CHR 0x1D, CHR 0x1E, CHR 0x1F, CHR 0x20])"

definition lower_char :: "char \<Rightarrow> char" where
  "lower_char c =
     (case map_of (zip ''ABCDEFGHIJKLMNOPQRSTUVWXYZ'' ''abcdefghijklmnopqrstuvwxyz'') c of
        None \<Rightarrow> c
      | Some l \<Rightarrow> l)"

text \<open>\<^verbatim>\<open>s.lower()\<close> and \<^verbatim>\<open>s.strip()\<close>.\<close>

definition lower :: "string \<Rightarrow> string" where
  "lower s = map lower_char s"

definition strip :: "string \<Rightarrow> string" where
  "strip s = rev (dropWhile is_space (rev (dropWhile is_space s)))"

definition digit_char :: "nat \<Rightarrow> char" where
  "digit_char d = ''0123456789'' ! d"

definition digit_val :: "char \<Rightarrow> nat" where
  "digit_val c = of_char c - 48"

text \<open>\<^verbatim>\<open>str(n)\<close> for an integer: the decimal digits, most significant first, after a
  minus sign when the number is negative.\<close>

fun str_nat :: "nat \<Rightarrow> string" where
  "str_nat n = (if n < 10 then [digit_char n] else str_nat (n div 10) @ [digit_char (n mod 10)])"

declare str_nat.simps [simp del]

definition str_int :: "int \<Rightarrow> string" where
  "str_int i = (if i < 0 then CHR ''-'' # str_nat (nat (- i)) else str_nat (nat i))"

text \<open>The value of a string of decimal digits.\<close>

definition digits_val :: "string \<Rightarrow> nat" where
  "digits_val s = foldl (\<lambda>a c. 10 * a + digit_val c) 0 s"

text \<open>
  \<^verbatim>\<open>int(s)\<close> for a string, base 10: surrounding whitespace is dropped, one sign may come
  first, and the digits may be grouped by single underscores. Anything else raises
  \<^verbatim>\<open>ValueError\<close>, here \<open>None\<close>.
\<close>

fun grouped_digits :: "string \<Rightarrow> bool" where
  "grouped_digits [] = False"
| "grouped_digits [c] = is_digit c"
| "grouped_digits (c # d # cs) =
     (is_digit c \<and> (if d = CHR ''_'' then grouped_digits cs else grouped_digits (d # cs)))"

definition int_of_str :: "string \<Rightarrow> int option" where
  "int_of_str s =
     (let t = strip s;
          neg = (t \<noteq> [] \<and> hd t = CHR ''-'');
          body = (if t \<noteq> [] \<and> (hd t = CHR ''-'' \<or> hd t = CHR ''+'') then tl t else t)
      in if grouped_digits body
         then Some ((if neg then - 1 else 1) * int (digits_val (filter is_digit body)))
         else None)"

text \<open>
  \<^verbatim>\<open>int(x)\<close>: an integer is itself, a boolean is 0 or 1 (\<^verbatim>\<open>bool\<close> is a subclass of
  \<^verbatim>\<open>int\<close>), a float is truncated towards zero, a string is parsed; \<^verbatim>\<open>None\<close>, a list and
  a dict raise \<^verbatim>\<open>TypeError\<close>.
\<close>

fun py_int :: "json \<Rightarrow> py_error + int" where
  "py_int (JInt n) = Inr n"
| "py_int (JBool b) = Inr (if b then 1 else 0)"
| "py_int (JFloat q) = Inr (if 0 \<le> q then \<lfloor>q\<rfloor> else \<lceil>q\<rceil>)"
| "py_int (JStr s) = (case int_of_str s of None \<Rightarrow> Inl ValueError | Some n \<Rightarrow> Inr n)"
| "py_int JNull = Inl TypeError"
| "py_int (JList xs) = Inl TypeError"
| "py_int (JObj d) = Inl TypeError"

text \<open>\<^verbatim>\<open>isinstance(x, int)\<close> with the integer it stands for: booleans are integers.\<close>

fun as_int :: "json \<Rightarrow> int option" where
  "as_int (JInt n) = Some n"
| "as_int (JBool b) = Some (if b then 1 else 0)"
| "as_int other = None"

section \<open>The search cache key\<close>

text \<open>
  \<^verbatim>\<open>_search_cache_key\<close>:
  \<^verbatim>\<open>f"{title.strip().lower()}|{year if year is not None else ''}"\<close>.
\<close>

definition year_text :: "int option \<Rightarrow> string" where
  "year_text year = (case year of None \<Rightarrow> [] | Some y \<Rightarrow> str_int y)"

definition search_cache_key :: "string \<Rightarrow> int option \<Rightarrow> string" where
  "search_cache_key title year = lower (strip title) @ ''|'' @ year_text year"

section \<open>The cache store\<close>

text \<open>
  The durable state is the directory \<^verbatim>\<open>.cache\<close>: the file \<^verbatim>\<open>search_cache.json\<close> and
  one file per title under \<^verbatim>\<open>titles/\<close>. A file that exists either parses as JSON or
  does not. The world also records, in order, every request sent to the remote API.
\<close>

datatype cache_file = Unreadable | Parsed json

datatype call = SearchCall string | FetchCall string int

record world =
  search_cache_file :: "cache_file option"
  title_files :: "string \<rightharpoonup> cache_file"
  calls :: "call list"

text \<open>\<^verbatim>\<open>_load_search_cache\<close>: the parsed file; \<^verbatim>\<open>{}\<close> when it is missing or does not
  parse.\<close>

definition load_search_cache :: "world \<Rightarrow> json" where
  "load_search_cache w =
     (case search_cache_file w of
        None \<Rightarrow> JObj []
      | Some Unreadable \<Rightarrow> JObj []
      | Some (Parsed v) \<Rightarrow> v)"

text \<open>\<^verbatim>\<open>_save_search_cache\<close>: written to a temporary file that then replaces the
  cache file.\<close>

definition save_search_cache :: "world \<Rightarrow> json \<Rightarrow> world" where
  "save_search_cache w cache = w\<lparr>search_cache_file := Some (Parsed cache)\<rparr>"

text \<open>\<^verbatim>\<open>_title_cache_path\<close>:
  \<^verbatim>\<open>os.path.join(TITLE_CACHE_DIR, f"{safe_type}_{tmdb_id}.json")\<close>.\<close>

definition title_cache_path :: "string \<Rightarrow> int \<Rightarrow> string" where
  "title_cache_path media_type tmdb_id =
     (let safe_type = (if media_type = ''tv'' then ''tv'' else ''movie'')
      in ''.cache/titles/'' @ safe_type @ ''_'' @ str_int tmdb_id @ ''.json'')"

text \<open>\<^verbatim>\<open>_load_title_from_cache\<close>: \<^verbatim>\<open>None\<close> when the file is missing or does not parse.
  A file that holds \<^verbatim>\<open>null\<close> loads as \<^verbatim>\<open>None\<close> too, which the caller's
  \<^verbatim>\<open>cached is not None\<close> cannot tell from a miss; \<open>JNull\<close> stands for both.\<close>

definition load_title_from_cache :: "world \<Rightarrow> string \<Rightarrow> int \<Rightarrow> json" where
  "load_title_from_cache w media_type tmdb_id =
     (case title_files w (title_cache_path media_type tmdb_id) of
        None \<Rightarrow> JNull
      | Some Unreadable \<Rightarrow> JNull
      | Some (Parsed v) \<Rightarrow> v)"

text \<open>\<^verbatim>\<open>_save_title_to_cache\<close>.\<close>

definition save_title_to_cache :: "world \<Rightarrow> string \<Rightarrow> int \<Rightarrow> json \<Rightarrow> world" where
  "save_title_to_cache w media_type tmdb_id payload =
     w\<lparr>title_files := (title_files w)(title_cache_path media_type tmdb_id \<mapsto> Parsed payload)\<rparr>"

section \<open>The catalog client\<close>

text \<open>
  The remote API is a parameter: for a request it answers with the parsed JSON body, or
  with \<open>None\<close> when \<^verbatim>\<open>requests.get\<close> or \<^verbatim>\<open>raise_for_status\<close> raises (no connection,
  timeout, HTTP error status), which is the transport error.
\<close>

record remote =
  search_api :: "string \<Rightarrow> json option"
  fetch_api :: "string \<Rightarrow> int \<Rightarrow> json option"

text \<open>The comprehension \<^verbatim>\<open>[x for x in results if x.get("media_type") in ("movie", "tv")]\<close>
  over a list: an element that is not a dict has no \<^verbatim>\<open>get\<close>.\<close>

fun keep_movie_tv :: "json list \<Rightarrow> py_error + pydict list" where
  "keep_movie_tv [] = Inr []"
| "keep_movie_tv (JObj d # xs) =
     (case keep_movie_tv xs of
        Inl e \<Rightarrow> Inl e
      | Inr ds \<Rightarrow>
          Inr (if dict_get d ''media_type'' = JStr ''movie'' \<or> dict_get d ''media_type'' = JStr ''tv''
               then d # ds else ds))"
| "keep_movie_tv (x # xs) = Inl AttributeError"

text \<open>
  What \<^verbatim>\<open>search_multi\<close> makes of a response body: \<^verbatim>\<open>r.json().get("results", [])\<close>,
  filtered. Iterating a non-empty string or dict yields strings, which have no \<^verbatim>\<open>get\<close>;
  a number, a boolean and \<^verbatim>\<open>None\<close> are not iterable.
\<close>

definition search_results :: "json \<Rightarrow> py_error + pydict list" where
  "search_results body =
     (case body of
        JObj d \<Rightarrow>
          (case dict_get_default d ''results'' (JList []) of
             JList xs \<Rightarrow> keep_movie_tv xs
           | JStr s \<Rightarrow> if s = [] then Inr [] else Inl AttributeError
           | JObj kv \<Rightarrow> if kv = [] then Inr [] else Inl AttributeError
           | other \<Rightarrow> Inl TypeError)
      | other \<Rightarrow> Inl AttributeError)"

text \<open>\<^verbatim>\<open>search_multi\<close>: one request, logged, whether it succeeds or not.\<close>

definition search_multi :: "remote \<Rightarrow> string \<Rightarrow> world \<Rightarrow> (py_error + pydict list) \<times> world" where
  "search_multi api title w =
     (case search_api api title of
        None \<Rightarrow> Inl TransportError
      | Some body \<Rightarrow> search_results body,
      w\<lparr>calls := calls w @ [SearchCall title]\<rparr>)"

section \<open>The resolver\<close>

text \<open>
  The test of the loop in \<^verbatim>\<open>_pick_best_result\<close>,
  \<^verbatim>\<open>len(d) >= 4 and d[:4].isdigit() and int(d[:4]) == int(year)\<close>, where \<^verbatim>\<open>d\<close> is truthy
  or the empty string. A short list or dict fails the length test; a longer list has no
  \<^verbatim>\<open>isdigit\<close> and a longer dict cannot be sliced (\<^verbatim>\<open>TypeError\<close> up to Python 3.11); a
  number or \<^verbatim>\<open>True\<close> has no \<^verbatim>\<open>len\<close>.
\<close>

fun year_matches :: "json \<Rightarrow> int \<Rightarrow> py_error + bool" where
  "year_matches (JStr s) y =
     Inr (4 \<le> length s \<and> list_all is_digit (take 4 s) \<and> int (digits_val (take 4 s)) = y)"
| "year_matches (JList xs) y = (if 4 \<le> length xs then Inl AttributeError else Inr False)"
| "year_matches (JObj kv) y = (if 4 \<le> length kv then Inl TypeError else Inr False)"
| "year_matches other y = Inl TypeError"

text \<open>\<^verbatim>\<open>d = r.get("release_date") or ""\<close> for a movie, \<^verbatim>\<open>r.get("first_air_date") or ""\<close>
  otherwise.\<close>

definition date_field :: "pydict \<Rightarrow> json" where
  "date_field r =
     (if dict_get r ''media_type'' = JStr ''movie''
      then py_or (dict_get r ''release_date'') (JStr [])
      else py_or (dict_get r ''first_air_date'') (JStr []))"

text \<open>\<^verbatim>\<open>int(r["id"])\<close>.\<close>

definition item_id :: "pydict \<Rightarrow> py_error + int" where
  "item_id r = (case dict_item r ''id'' of Inl e \<Rightarrow> Inl e | Inr v \<Rightarrow> py_int v)"

text \<open>The loop \<^verbatim>\<open>for r in results\<close>: the first exact year match returns.\<close>

fun year_scan :: "pydict list \<Rightarrow> int \<Rightarrow> py_error + (json \<times> int) option" where
  "year_scan [] y = Inr None"
| "year_scan (r # rs) y =
     (case year_matches (date_field r) y of
        Inl e \<Rightarrow> Inl e
      | Inr True \<Rightarrow>
          (case item_id r of
             Inl e \<Rightarrow> Inl e
           | Inr i \<Rightarrow> Inr (Some (dict_get r ''media_type'', i)))
      | Inr False \<Rightarrow> year_scan rs y)"

text \<open>\<^verbatim>\<open>_pick_best_result\<close>.\<close>

definition pick_best_result :: "pydict list \<Rightarrow> int option \<Rightarrow> py_error + (json \<times> int) option" where
  "pick_best_result results year =
     (case results of
        [] \<Rightarrow> Inr None
      | first # rest \<Rightarrow>
          (case (case year of None \<Rightarrow> Inr None | Some y \<Rightarrow> year_scan results y) of
             Inl e \<Rightarrow> Inl e
           | Inr (Some picked) \<Rightarrow> Inr (Some picked)
           | Inr None \<Rightarrow>
               (case item_id first of
                  Inl e \<Rightarrow> Inl e
                | Inr i \<Rightarrow> Inr (Some (dict_get_default first ''media_type'' (JStr ''movie''), i)))))"

section \<open>Runtime normalization and the record fetch\<close>

text \<open>The loop over \<^verbatim>\<open>episode_run_time\<close>: the first \<^verbatim>\<open>x\<close> with
  \<^verbatim>\<open>isinstance(x, int) and x > 0\<close>.\<close>

fun first_positive :: "json list \<Rightarrow> int" where
  "first_positive [] = 0"
| "first_positive (x # xs) =
     (case as_int x of
        Some n \<Rightarrow> if 0 < n then n else first_positive xs
      | None \<Rightarrow> first_positive xs)"

text \<open>\<^verbatim>\<open>_normalized_runtime_minutes\<close>.\<close>

definition normalized_runtime_minutes :: "pydict \<Rightarrow> string \<Rightarrow> int" where
  "normalized_runtime_minutes payload media_type =
     (if media_type = ''movie''
      then (case as_int (dict_get payload ''runtime'') of
              Some rt \<Rightarrow> if 0 < rt then rt else 0
            | None \<Rightarrow> 0)
      else (case py_or (dict_get payload ''episode_run_time'') (JList []) of
              JList rts \<Rightarrow> first_positive rts
            | other \<Rightarrow> 0))"

text \<open>
  The two assignments \<^verbatim>\<open>payload["_media_type"] = media_type\<close> and
  \<^verbatim>\<open>payload["_normalized_runtime"] = _normalized_runtime_minutes(payload, media_type)\<close>.
  Only a dict takes an item under a string key.
\<close>

definition augment :: "json \<Rightarrow> string \<Rightarrow> py_error + json" where
  "augment payload media_type =
     (case payload of
        JObj d \<Rightarrow>
          (let d1 = AList.update ''_media_type'' (JStr media_type) d;
               d2 = AList.update ''_normalized_runtime''
                      (JInt (normalized_runtime_minutes d1 media_type)) d1
           in Inr (JObj d2))
      | other \<Rightarrow> Inl TypeError)"

text \<open>The request of \<^verbatim>\<open>title_with_credits\<close> and what is made of its body.\<close>

definition fetch_record :: "remote \<Rightarrow> string \<Rightarrow> int \<Rightarrow> py_error + json" where
  "fetch_record api media_type tmdb_id =
     (case fetch_api api media_type tmdb_id of
        None \<Rightarrow> Inl TransportError
      | Some payload \<Rightarrow> augment payload media_type)"

definition log_fetch :: "world \<Rightarrow> string \<Rightarrow> int \<Rightarrow> world" where
  "log_fetch w media_type tmdb_id = w\<lparr>calls := calls w @ [FetchCall media_type tmdb_id]\<rparr>"

text \<open>\<^verbatim>\<open>title_with_credits\<close>.\<close>

definition title_with_credits :: "remote \<Rightarrow> string \<Rightarrow> int \<Rightarrow> world \<Rightarrow> (py_error + json) \<times> world" where
  "title_with_credits api media_type tmdb_id w =
     (let cached = load_title_from_cache w media_type tmdb_id
      in if cached \<noteq> JNull then (Inr cached, w)
         else (case fetch_record api media_type tmdb_id of
                 Inl e \<Rightarrow> (Inl e, log_fetch w media_type tmdb_id)
               | Inr payload \<Rightarrow>
                   (Inr payload,
                    save_title_to_cache (log_fetch w media_type tmdb_id) media_type tmdb_id payload)))"

section \<open>The concurrent fetch orchestrator\<close>

text \<open>
  \<^verbatim>\<open>resolve_and_fetch_credits_parallel\<close> submits one call of its local function
  \<^verbatim>\<open>worker\<close> per query to a thread pool. The threads share the dict \<^verbatim>\<open>search_cache\<close>,
  the title files and the remote API, so a worker is modelled by the sequence of its
  accesses to them, each one atomic, with the local computation that follows it:

  \<^item> \<open>Queued\<close>: submitted; its first action is \<^verbatim>\<open>search_cache.get(key)\<close> under the lock;
  \<^item> \<open>Missed\<close>: the key was not cached; next is the request of \<^verbatim>\<open>search_multi\<close> and
    \<^verbatim>\<open>_pick_best_result\<close>;
  \<^item> \<open>Searched\<close>: next is the write \<^verbatim>\<open>search_cache[key] = ...\<close> under the lock;
  \<^item> \<open>Resolved\<close>: \<^verbatim>\<open>media_type\<close> and \<^verbatim>\<open>tmdb_id\<close> are set; next is the test of
    line 201 and the read of the title file in \<^verbatim>\<open>title_with_credits\<close>;
  \<^item> \<open>Fetching\<close>: the title file gave nothing; next is the request for the record;
  \<^item> \<open>Fetched\<close>: next is the write of the title file;
  \<^item> \<open>Done\<close>: the future holds the returned tuple or the raised exception.
\<close>

type_synonym query = "string \<times> int option"

datatype outcome = OK json | NO_MATCH string "int option"

datatype wstate =
    Queued
  | Missed
  | Searched "(json \<times> int) option"
  | Resolved json int
  | Fetching string int
  | Fetched string int json
  | Done "py_error + outcome"

text \<open>\<^verbatim>\<open>search_cache.get(key)\<close>; what \<^verbatim>\<open>_load_search_cache\<close> returned may be any JSON
  value, and only a dict has \<^verbatim>\<open>get\<close>.\<close>

definition cache_get :: "json \<Rightarrow> string \<Rightarrow> py_error + json" where
  "cache_get cache key =
     (case cache of JObj d \<Rightarrow> Inr (dict_get d key) | other \<Rightarrow> Inl AttributeError)"

text \<open>\<^verbatim>\<open>search_cache[key] = entry\<close>.\<close>

definition cache_set :: "json \<Rightarrow> string \<Rightarrow> json \<Rightarrow> py_error + json" where
  "cache_set cache key entry =
     (case cache of JObj d \<Rightarrow> Inr (JObj (AList.update key entry d)) | other \<Rightarrow> Inl TypeError)"

text \<open>The dict \<^verbatim>\<open>{"media_type": media_type, "id": int(tmdb_id)}\<close>.\<close>

definition cache_entry :: "json \<Rightarrow> int \<Rightarrow> json" where
  "cache_entry media_type tmdb_id = JObj [(''media_type'', media_type), (''id'', JInt tmdb_id)]"

text \<open>The branch of a cache hit: \<^verbatim>\<open>media_type = cached.get("media_type")\<close> and
  \<^verbatim>\<open>tmdb_id = int(cached.get("id") or 0)\<close>.\<close>

definition read_entry :: "json \<Rightarrow> py_error + json \<times> int" where
  "read_entry cached =
     (case cached of
        JObj e \<Rightarrow>
          (case py_int (py_or (dict_get e ''id'') (JInt 0)) of
             Inl err \<Rightarrow> Inl err
           | Inr i \<Rightarrow> Inr (dict_get e ''media_type'', i))
      | other \<Rightarrow> Inl AttributeError)"

text \<open>One action of a worker on the shared cache and world.\<close>

fun worker_action ::
  "remote \<Rightarrow> query \<Rightarrow> wstate \<Rightarrow> json \<Rightarrow> world \<Rightarrow> wstate \<times> json \<times> world" where
  "worker_action api (title, year) Queued cache w =
     (case cache_get cache (search_cache_key title year) of
        Inl e \<Rightarrow> (Done (Inl e), cache, w)
      | Inr cached \<Rightarrow>
          if cached = JNull then (Missed, cache, w)
          else (case read_entry cached of
                  Inl e \<Rightarrow> (Done (Inl e), cache, w)
                | Inr (media_type, tmdb_id) \<Rightarrow> (Resolved media_type tmdb_id, cache, w)))"
| "worker_action api (title, year) Missed cache w =
     (case search_multi api title w of
        (Inl e, w') \<Rightarrow> (Done (Inl e), cache, w')
      | (Inr results, w') \<Rightarrow>
          (case pick_best_result results year of
             Inl e \<Rightarrow> (Done (Inl e), cache, w')
           | Inr picked \<Rightarrow> (Searched picked, cache, w')))"
| "worker_action api (title, year) (Searched None) cache w =
     (case cache_set cache (search_cache_key title year) (cache_entry JNull 0) of
        Inl e \<Rightarrow> (Done (Inl e), cache, w)
      | Inr cache' \<Rightarrow> (Done (Inr (NO_MATCH title year)), cache', w))"
| "worker_action api (title, year) (Searched (Some (media_type, tmdb_id))) cache w =
     (case cache_set cache (search_cache_key title year) (cache_entry media_type tmdb_id) of
        Inl e \<Rightarrow> (Done (Inl e), cache, w)
      | Inr cache' \<Rightarrow> (Resolved media_type tmdb_id, cache', w))"
| "worker_action api (title, year) (Resolved media_type tmdb_id) cache w =
     (if tmdb_id = 0 \<or> (media_type \<noteq> JStr ''movie'' \<and> media_type \<noteq> JStr ''tv'')
      then (Done (Inr (NO_MATCH title year)), cache, w)
      else (case media_type of
              JStr mt \<Rightarrow>
                (let cached = load_title_from_cache w mt tmdb_id
                 in if cached \<noteq> JNull then (Done (Inr (OK cached)), cache, w)
                    else (Fetching mt tmdb_id, cache, w))
            | other \<Rightarrow> (Done (Inr (NO_MATCH title year)), cache, w)))"
| "worker_action api (title, year) (Fetching mt tmdb_id) cache w =
     (case fetch_record api mt tmdb_id of
        Inl e \<Rightarrow> (Done (Inl e), cache, log_fetch w mt tmdb_id)
      | Inr payload \<Rightarrow> (Fetched mt tmdb_id payload, cache, log_fetch w mt tmdb_id))"
| "worker_action api (title, year) (Fetched mt tmdb_id payload) cache w =
     (Done (Inr (OK payload)), cache, save_title_to_cache w mt tmdb_id payload)"
| "worker_action api (title, year) (Done r) cache w = (Done r, cache, w)"

text \<open>
  The pool. A configuration holds the world, the shared dict, the state of every
  submitted worker, and the results of the futures in the order in which they completed,
  which is the order in which \<^verbatim>\<open>as_completed\<close> hands them to the collecting loop.
  The pool starts the workers in the order of submission, and at most \<^verbatim>\<open>max_workers\<close>
  of them are started and not done at any time.
\<close>

record config =
  env :: world
  cache :: json
  workers :: "wstate list"
  completed :: "(nat \<times> (py_error + outcome)) list"

fun is_done :: "wstate \<Rightarrow> bool" where
  "is_done (Done r) = True"
| "is_done other = False"

definition running :: "wstate \<Rightarrow> bool" where
  "running s = (s \<noteq> Queued \<and> \<not> is_done s)"

definition may_run :: "nat \<Rightarrow> nat \<Rightarrow> wstate list \<Rightarrow> bool" where
  "may_run max_workers i ws =
     (if ws ! i = Queued
      then list_all (\<lambda>s. s \<noteq> Queued) (take i ws) \<and> length (filter running ws) < max_workers
      else True)"

text \<open>The scheduler lets worker \<open>i\<close> perform its next action. A choice the pool does not
  allow leaves the configuration as it is.\<close>

definition step :: "remote \<Rightarrow> query list \<Rightarrow> nat \<Rightarrow> nat \<Rightarrow> config \<Rightarrow> config" where
  "step api titles_years max_workers i c =
     (if i < length (workers c) \<and> i < length titles_years \<and> may_run max_workers i (workers c)
      then (case worker_action api (titles_years ! i) (workers c ! i) (cache c) (env c) of
              (s, cache', w') \<Rightarrow>
                \<lparr>env = w', cache = cache', workers = (workers c)[i := s],
                 completed =
                   (case s of
                      Done r \<Rightarrow> if is_done (workers c ! i) then completed c
                                else completed c @ [(i, r)]
                    | other \<Rightarrow> completed c)\<rparr>)
      else c)"

text \<open>
  A schedule is the list of the scheduler's choices. Leaving the \<^verbatim>\<open>with\<close> block waits
  for every worker, so after the schedule each worker that is not done yet runs to its end,
  in the order of submission; a worker takes at most six actions.
\<close>

definition drain :: "nat \<Rightarrow> nat list" where
  "drain n = concat (map (replicate 6) [0..<n])"

definition run_pool :: "remote \<Rightarrow> query list \<Rightarrow> nat \<Rightarrow> nat list \<Rightarrow> config \<Rightarrow> config" where
  "run_pool api titles_years max_workers sched c =
     fold (step api titles_years max_workers) (sched @ drain (length titles_years)) c"

definition init_config :: "world \<Rightarrow> json \<Rightarrow> nat \<Rightarrow> config" where
  "init_config w search_cache n =
     \<lparr>env = w, cache = search_cache, workers = replicate n Queued, completed = []\<rparr>"

text \<open>The dict \<^verbatim>\<open>{"title": title, "year": year}\<close> and the collecting loop: \<^verbatim>\<open>fut.result()\<close>
  raises the exception of a worker that raised.\<close>

definition no_match_item :: "string \<Rightarrow> int option \<Rightarrow> json" where
  "no_match_item title year =
     JObj [(''title'', JStr title), (''year'', case year of None \<Rightarrow> JNull | Some y \<Rightarrow> JInt y)]"

fun collect ::
  "(py_error + outcome) list \<Rightarrow> json list \<Rightarrow> json list \<Rightarrow> py_error + json list \<times> json list" where
  "collect [] items no_match_items = Inr (items, no_match_items)"
| "collect (Inl e # rs) items no_match_items = Inl e"
| "collect (Inr (OK payload) # rs) items no_match_items =
     collect rs (items @ [payload]) no_match_items"
| "collect (Inr (NO_MATCH title year) # rs) items no_match_items =
     collect rs items (no_match_items @ [no_match_item title year])"

text \<open>
  \<^verbatim>\<open>resolve_and_fetch_credits_parallel\<close>, for the schedule the threads happen to follow.
  \<^verbatim>\<open>ThreadPoolExecutor\<close> raises \<^verbatim>\<open>ValueError\<close> for \<^verbatim>\<open>max_workers <= 0\<close>. When the
  collecting loop raises, the \<^verbatim>\<open>with\<close> block still waits for the workers, and
  \<^verbatim>\<open>_save_search_cache\<close> is not reached.
\<close>

definition resolve_and_fetch_credits_parallel ::
  "remote \<Rightarrow> query list \<Rightarrow> int \<Rightarrow> nat list \<Rightarrow> world \<Rightarrow> (py_error + json list \<times> json list) \<times> world" where
  "resolve_and_fetch_credits_parallel api titles_years max_workers sched w =
     (let search_cache = load_search_cache w
      in if max_workers \<le> 0 then (Inl ValueError, w)
         else (let c = run_pool api titles_years (nat max_workers) sched
                         (init_config w search_cache (length titles_years))
               in case collect (map snd (completed c)) [] [] of
                    Inl e \<Rightarrow> (Inl e, env c)
                  | Inr r \<Rightarrow> (Inr r, save_search_cache (env c) (cache c))))"

section \<open>Notions used in the statements\<close>

subsection \<open>The resolver and the runtime, in the words of the specification\<close>

text \<open>A strictly positive integer, with the integer it is.\<close>

definition positive_int :: "json \<Rightarrow> int option" where
  "positive_int v = (case as_int v of Some n \<Rightarrow> if 0 < n then Some n else None | None \<Rightarrow> None)"

text \<open>
  The normalized runtime as the specification words it: for a movie the runtime field if
  it is a positive integer, else 0; for a series the first strictly positive integer of
  the list of episode runtimes, else 0.
\<close>

definition spec_normalized_runtime :: "pydict \<Rightarrow> string \<Rightarrow> int" where
  "spec_normalized_runtime payload media_type =
     (if media_type = ''movie''
      then (case positive_int (dict_get payload ''runtime'') of Some n \<Rightarrow> n | None \<Rightarrow> 0)
      else (case dict_get payload ''episode_run_time'' of
              JList rts \<Rightarrow> (case List.map_filter positive_int rts of [] \<Rightarrow> 0 | n # ns \<Rightarrow> n)
            | other \<Rightarrow> 0))"

text \<open>
  The release year of a candidate: read from the release date of a movie and from the
  first-air date of a series, and present only if the first four characters of the date
  string are digits.
\<close>

definition release_year :: "pydict \<Rightarrow> int option" where
  "release_year r =
     (case (if dict_get r ''media_type'' = JStr ''movie''
            then dict_get r ''release_date'' else dict_get r ''first_air_date'') of
        JStr s \<Rightarrow>
          if 4 \<le> length s \<and> list_all is_digit (take 4 s)
          then Some (int (digits_val (take 4 s))) else None
      | other \<Rightarrow> None)"

text \<open>A candidate as \<^verbatim>\<open>search_multi\<close> hands it to the resolver: its type is movie or
  series, and its date is a string, or missing.\<close>

definition candidate :: "pydict \<Rightarrow> bool" where
  "candidate r =
     ((dict_get r ''media_type'' = JStr ''movie'' \<or> dict_get r ''media_type'' = JStr ''tv'')
      \<and> (case (if dict_get r ''media_type'' = JStr ''movie''
                then dict_get r ''release_date'' else dict_get r ''first_air_date'') of
            JStr s \<Rightarrow> True | JNull \<Rightarrow> True | other \<Rightarrow> False))"

text \<open>The identity of a candidate: its type and \<^verbatim>\<open>int(r["id"])\<close>, which raises when the
  id is missing or is no number.\<close>

definition identity :: "pydict \<Rightarrow> py_error + (json \<times> int) option" where
  "identity r =
     (case item_id r of Inl e \<Rightarrow> Inl e | Inr i \<Rightarrow> Inr (Some (dict_get r ''media_type'', i)))"

text \<open>The selection policy as the specification words it.\<close>

definition spec_pick_best :: "pydict list \<Rightarrow> int option \<Rightarrow> py_error + (json \<times> int) option" where
  "spec_pick_best cs year =
     (case cs of
        [] \<Rightarrow> Inr None
      | c # rest \<Rightarrow>
          (case year of
             None \<Rightarrow> identity c
           | Some y \<Rightarrow>
               (case find (\<lambda>r. release_year r = Some y) cs of
                  Some r \<Rightarrow> identity r
                | None \<Rightarrow> identity c)))"

subsection \<open>Sample data\<close>

text \<open>
  A remote API for the examples. The search for \<^verbatim>\<open>Inception\<close> finds the movie 27205 of
  2010 after a series of 2001, the search for \<^verbatim>\<open>inception\<close> ranks the movie 64956
  first, \<^verbatim>\<open>Nothing\<close> has no result, \<^verbatim>\<open>Zero\<close> has a result with the id 0, and any
  other search fails in transport. The records of the movies 27205 and 64956 can be
  fetched; any other fetch fails in transport.
\<close>

definition sample_series :: pydict where
  "sample_series =
     [(''media_type'', JStr ''tv''), (''id'', JInt 5), (''first_air_date'', JStr ''2001-01-01'')]"

definition sample_movie :: pydict where
  "sample_movie =
     [(''media_type'', JStr ''movie''), (''id'', JInt 27205), (''release_date'', JStr ''2010-07-15'')]"

definition sample_api :: remote where
  "sample_api =
     \<lparr>search_api = (\<lambda>title.
         if title = ''Inception''
         then Some (JObj [(''results'', JList [JObj sample_series, JObj sample_movie])])
         else if title = ''inception''
         then Some (JObj [(''results'', JList [JObj [(''media_type'', JStr ''movie''), (''id'', JInt 64956)]])])
         else if title = ''Nothing'' then Some (JObj [(''results'', JList [])])
         else if title = ''Zero''
         then Some (JObj [(''results'', JList [JObj [(''media_type'', JStr ''movie''), (''id'', JInt 0)]])])
         else None),
       fetch_api = (\<lambda>media_type tmdb_id.
         if media_type = ''movie'' \<and> tmdb_id = 27205 then Some (JObj [(''runtime'', JInt 148)])
         else if media_type = ''movie'' \<and> tmdb_id = 64956 then Some (JObj [(''runtime'', JInt 100)])
         else None)\<rparr>"

definition empty_world :: world where
  "empty_world = \<lparr>search_cache_file = None, title_files = Map.empty, calls = []\<rparr>"

subsection \<open>Resolution, seen from outside the pool\<close>

text \<open>What a worker that finds nothing cached makes of its query: the filtered results
  of the search for the title, and the candidate picked among them.\<close>

definition resolve :: "remote \<Rightarrow> query \<Rightarrow> py_error + (json \<times> int) option" where
  "resolve api q =
     (case search_api api (fst q) of
        None \<Rightarrow> Inl TransportError
      | Some body \<Rightarrow>
          (case search_results body of
             Inl e \<Rightarrow> Inl e
           | Inr results \<Rightarrow> pick_best_result results (snd q)))"

text \<open>The key of a query, and the entry a worker writes for what it picked.\<close>

definition query_key :: "query \<Rightarrow> string" where
  "query_key q = search_cache_key (fst q) (snd q)"

definition entry_of :: "(json \<times> int) option \<Rightarrow> json" where
  "entry_of picked =
     (case picked of None \<Rightarrow> cache_entry JNull 0 | Some (m, i) \<Rightarrow> cache_entry m i)"

text \<open>The test of line 201 passes: the id is not 0 and the type is movie or series.\<close>

definition fetchable :: "json \<Rightarrow> int \<Rightarrow> bool" where
  "fetchable m i = (i \<noteq> 0 \<and> (m = JStr ''movie'' \<or> m = JStr ''tv''))"

text \<open>The requests to the search endpoint among the logged calls.\<close>

fun is_search :: "call \<Rightarrow> bool" where
  "is_search (SearchCall title) = True"
| "is_search (FetchCall mt i) = False"

definition search_calls :: "world \<Rightarrow> nat" where
  "search_calls w = length (filter is_search (calls w))"


subsection \<open>Well-formed configurations of the pool\<close>

text \<open>
  The pool has one worker per query; a worker is started only after the workers submitted
  before it; and the list of completed futures holds exactly the workers that are done,
  each once, with its result.
\<close>

definition pool_ok :: "nat \<Rightarrow> config \<Rightarrow> bool" where
  "pool_ok n c =
     (length (workers c) = n
      \<and> (\<forall>j k. j < k \<and> k < n \<and> workers c ! k \<noteq> Queued \<longrightarrow> workers c ! j \<noteq> Queued)
      \<and> distinct (map fst (completed c))
      \<and> (\<forall>i r. ((i, r) \<in> set (completed c)) = (i < n \<and> workers c ! i = Done r)))"

text \<open>The number of actions a worker has left at most.\<close>

fun rank :: "wstate \<Rightarrow> nat" where
  "rank Queued = 6"
| "rank Missed = 5"
| "rank (Searched p) = 4"
| "rank (Resolved m i) = 3"
| "rank (Fetching mt i) = 2"
| "rank (Fetched mt i p) = 1"
| "rank (Done r) = 0"

subsection \<open>Workers whose key is cached\<close>





subsection \<open>The entries of the search cache\<close>

text \<open>
  An entry as a worker writes it: the dict \<^verbatim>\<open>{"media_type": ..., "id": ...}\<close> with the
  type none and the id 0, or with the type movie or series and an integer id. The
  invariant of the specification asks, in addition, that the id of a movie or series is
  strictly positive.
\<close>

definition entry_written :: "json \<Rightarrow> bool" where
  "entry_written v =
     (case v of
        JObj e \<Rightarrow>
          (case dict_get e ''id'' of
             JInt i \<Rightarrow>
               v = cache_entry (dict_get e ''media_type'') i
               \<and> (dict_get e ''media_type'' = JNull \<and> i = 0
                  \<or> dict_get e ''media_type'' = JStr ''movie''
                  \<or> dict_get e ''media_type'' = JStr ''tv'')
           | other \<Rightarrow> False)
      | other \<Rightarrow> False)"

definition entry_sound :: "json \<Rightarrow> bool" where
  "entry_sound v =
     (entry_written v
      \<and> (case v of
           JObj e \<Rightarrow>
             dict_get e ''media_type'' = JNull
             \<or> (case dict_get e ''id'' of JInt i \<Rightarrow> 0 < i | other \<Rightarrow> False)
         | other \<Rightarrow> False))"

text \<open>Every entry of the search cache, as \<^verbatim>\<open>_load_search_cache\<close> reads it from the
  world, satisfies \<open>P\<close>.\<close>

definition cache_file_all :: "(json \<Rightarrow> bool) \<Rightarrow> world \<Rightarrow> bool" where
  "cache_file_all P w =
     (case load_search_cache w of
        JObj d \<Rightarrow> list_all (\<lambda>kv. P (snd kv)) d
      | other \<Rightarrow> False)"

text \<open>Every candidate the remote search returns has a strictly positive id.\<close>

definition positive_ids :: "remote \<Rightarrow> bool" where
  "positive_ids api =
     (\<forall>title body rs r i.
        search_api api title = Some body \<longrightarrow> search_results body = Inr rs \<longrightarrow>
        r \<in> set rs \<longrightarrow> item_id r = Inr i \<longrightarrow> 0 < i)"

text \<open>A sequence of calls of \<^verbatim>\<open>resolve_and_fetch_credits_parallel\<close>, each with its
  queries, its \<^verbatim>\<open>max_workers\<close> and the schedule its threads follow.\<close>

fun run_batches :: "remote \<Rightarrow> (query list \<times> int \<times> nat list) list \<Rightarrow> world \<Rightarrow> world" where
  "run_batches api [] w = w"
| "run_batches api ((titles_years, max_workers, sched) # bs) w =
     run_batches api bs
       (snd (resolve_and_fetch_credits_parallel api titles_years max_workers sched w))"

text \<open>The pool never breaks \<open>P\<close> on the shared dict when every entry a worker may write
  satisfies it.\<close>

definition entries_inv :: "(json \<Rightarrow> bool) \<Rightarrow> query list \<Rightarrow> config \<Rightarrow> bool" where
  "entries_inv P qs c =
     ((\<exists>d. cache c = JObj d \<and> list_all (\<lambda>kv. P (snd kv)) d)
      \<and> (\<forall>j<length qs. \<forall>m i. workers c ! j = Searched (Some (m, i)) \<longrightarrow> P (cache_entry m i)))"

text \<open>A remote API whose search always answers with the sample movie.\<close>

definition positive_api :: remote where
  "positive_api =
     \<lparr>search_api = (\<lambda>title. Some (JObj [(''results'', JList [JObj sample_movie])])),
       fetch_api = (\<lambda>media_type tmdb_id. Some (JObj [(''runtime'', JInt 148)]))\<rparr>"

subsection \<open>What the pool does to the shared dict\<close>

text \<open>A worker that has not read the dict yet, or has read it and has to search.\<close>

fun pending :: "wstate \<Rightarrow> bool" where
  "pending Queued = True"
| "pending Missed = True"
| "pending other = False"

text \<open>A worker that knows its type and id, or has returned.\<close>

fun settled :: "wstate \<Rightarrow> bool" where
  "settled (Resolved m i) = True"
| "settled (Fetching mt i) = True"
| "settled (Fetched mt i p) = True"
| "settled (Done (Inr ob)) = True"
| "settled other = False"

text \<open>
  Relative to the dict \<open>d0\<close> that was loaded: every key either holds what it held, or
  the entry of the resolution of a query with that key; a worker about to write holds
  the resolution of its query; and the key of a settled worker has an entry.
\<close>

definition res_inv :: "remote \<Rightarrow> query list \<Rightarrow> pydict \<Rightarrow> config \<Rightarrow> bool" where
  "res_inv api qs d0 c =
     (\<exists>d. cache c = JObj d
        \<and> (distinct (map fst d0) \<longrightarrow> distinct (map fst d))
        \<and> (\<forall>k. map_of d k = map_of d0 k
               \<or> (\<exists>j<length qs. query_key (qs ! j) = k
                     \<and> (\<exists>p. resolve api (qs ! j) = Inr p \<and> map_of d k = Some (entry_of p))))
        \<and> (\<forall>j<length qs. \<forall>p. workers c ! j = Searched p \<longrightarrow> resolve api (qs ! j) = Inr p)
        \<and> (\<forall>j<length qs. settled (workers c ! j) \<longrightarrow>
               (\<exists>v. map_of d (query_key (qs ! j)) = Some v \<and> v \<noteq> JNull)))"

section \<open>Properties of the search cache key\<close>

lemma digit_cases: "(d::nat) < 10 \<Longrightarrow> d \<in> {0, 1, 2, 3, 4, 5, 6, 7, 8, 9}"
  by auto

lemma digit_val_digit_char: "d < 10 \<Longrightarrow> digit_val (digit_char d) = d"
  using digit_cases[of d] by (auto simp add: digit_val_def digit_char_def)

lemma is_digit_digit_char: "d < 10 \<Longrightarrow> is_digit (digit_char d)"
  using digit_cases[of d] by (auto simp add: is_digit_def digit_char_def)

lemma digits_val_snoc: "digits_val (s @ [c]) = 10 * digits_val s + digit_val c"
  by (simp add: digits_val_def)

text \<open>Reading the decimal text of a number back gives the number, so \<open>str_nat\<close> is
  injective.\<close>

lemma digits_val_str_nat: "digits_val (str_nat n) = n"
proof (induction n rule: str_nat.induct)
  case (1 n)
  show ?case
  proof (cases "n < 10")
    case True
    then show ?thesis
      by (simp add: str_nat.simps[of n] digits_val_def digit_val_digit_char)
  next
    case False
    then have "digits_val (str_nat n) = 10 * (n div 10) + n mod 10"
      using 1 by (simp add: str_nat.simps[of n] digits_val_snoc digit_val_digit_char)
    then show ?thesis by simp
  qed
qed

lemma str_nat_inj: "str_nat m = str_nat n \<Longrightarrow> m = n"
  by (metis digits_val_str_nat)

lemma str_nat_digits: "c \<in> set (str_nat n) \<Longrightarrow> is_digit c"
proof (induction n rule: str_nat.induct)
  case (1 n)
  show ?case
  proof (cases "n < 10")
    case True
    with 1(2) show ?thesis by (simp add: str_nat.simps[of n] is_digit_digit_char)
  next
    case False
    with 1 show ?thesis by (auto simp add: str_nat.simps[of n] is_digit_digit_char)
  qed
qed

lemma str_nat_nonempty: "str_nat n \<noteq> []"
  by (subst str_nat.simps) simp

lemma str_nat_no_minus: "hd (str_nat n) \<noteq> CHR ''-''"
proof -
  have "\<not> is_digit (CHR ''-'')" by (simp add: is_digit_def)
  then show ?thesis
    using str_nat_digits str_nat_nonempty by (metis hd_in_set)
qed

lemma str_int_inj: "str_int i = str_int j \<Longrightarrow> i = j"
proof -
  assume e: "str_int i = str_int j"
  show ?thesis
  proof (cases "i < 0")
    case True
    show ?thesis
    proof (cases "j < 0")
      case True
      with \<open>i < 0\<close> e have "nat (- i) = nat (- j)" by (simp add: str_int_def str_nat_inj)
      with True \<open>i < 0\<close> show ?thesis by simp
    next
      case False
      with \<open>i < 0\<close> e have "CHR ''-'' # str_nat (nat (- i)) = str_nat (nat j)"
        by (simp add: str_int_def)
      with str_nat_no_minus[of "nat j"] show ?thesis by (metis list.sel(1))
    qed
  next
    case False
    show ?thesis
    proof (cases "j < 0")
      case True
      with \<open>\<not> i < 0\<close> e have "str_nat (nat i) = CHR ''-'' # str_nat (nat (- j))"
        by (simp add: str_int_def)
      with str_nat_no_minus[of "nat i"] show ?thesis by (metis list.sel(1))
    next
      case False
      with \<open>\<not> i < 0\<close> e have "nat i = nat j" by (simp add: str_int_def str_nat_inj)
      with False \<open>\<not> i < 0\<close> show ?thesis by simp
    qed
  qed
qed

lemma str_int_no_bar: "CHR ''|'' \<notin> set (str_int i)"
  using str_nat_digits by (auto simp add: str_int_def is_digit_def)

lemma str_int_nonempty: "str_int i \<noteq> []"
  by (simp add: str_int_def str_nat_nonempty)

lemma year_text_inj: "year_text a = year_text b \<Longrightarrow> a = b"
  by (cases a; cases b)
    (auto simp add: year_text_def str_int_nonempty str_int_nonempty[symmetric] dest: str_int_inj)

lemma year_text_no_bar: "CHR ''|'' \<notin> set (year_text a)"
  by (cases a) (simp_all add: year_text_def str_int_no_bar)

text \<open>A separator that does not occur in the prefixes splits two equal texts alike.\<close>

lemma split_at_first:
  "c \<notin> set b \<Longrightarrow> c \<notin> set b' \<Longrightarrow> b @ c # a = b' @ c # a' \<Longrightarrow> b = b' \<and> a = a'"
proof (induction b arbitrary: b')
  case Nil
  then show ?case by (cases b') auto
next
  case (Cons x xs)
  then show ?case by (cases b') auto
qed

lemma split_at_last:
  assumes "a @ c # b = a' @ c # b'" "c \<notin> set b" "c \<notin> set b'"
  shows "a = a' \<and> b = b'"
proof -
  have "rev b @ c # rev a = rev b' @ c # rev a'"
    using arg_cong[OF assms(1), of rev] by simp
  moreover have "c \<notin> set (rev b)" "c \<notin> set (rev b')" using assms by simp_all
  ultimately have "rev b = rev b' \<and> rev a = rev a'"
    by (rule split_at_first[rotated 2])
  then show ?thesis by simp
qed

lemma search_cache_key_inj:
  "search_cache_key t1 y1 = search_cache_key t2 y2 \<Longrightarrow>
     lower (strip t1) = lower (strip t2) \<and> y1 = y2"
  using split_at_last[of "lower (strip t1)" "CHR ''|''" "year_text y1"
      "lower (strip t2)" "year_text y2"] year_text_no_bar year_text_inj
  by (auto simp add: search_cache_key_def)

text \<open>
  Claim C5. Two queries have the same search cache key exactly when their titles are
  equal after trimming and lowercasing and their years are equal. The year is the text
  after the last bar of the key, so titles that contain a bar do not collide either.
\<close>

theorem search_cache_key_eq_iff:
  "(search_cache_key t1 y1 = search_cache_key t2 y2) =
     (lower (strip t1) = lower (strip t2) \<and> y1 = y2)"
  using search_cache_key_inj[of t1 y1 t2 y2] by (auto simp add: search_cache_key_def)

theorem search_cache_key_eq_iff_witness:
  "search_cache_key ''Inception'' (Some 2010) = search_cache_key ''  inception  '' (Some 2010)
   \<and> search_cache_key ''Inception'' (Some 2010) \<noteq> search_cache_key ''Inception'' None
   \<and> search_cache_key ''Inception'' (Some 2010) \<noteq> search_cache_key ''Inception|'' (Some 2010)"
  using search_cache_key_eq_iff[of "''Inception''" "Some 2010" "''  inception  ''" "Some 2010"]
    search_cache_key_eq_iff[of "''Inception''" "Some 2010" "''Inception''" None]
    search_cache_key_eq_iff[of "''Inception''" "Some 2010" "''Inception|''" "Some 2010"]
  by (simp add: lower_def strip_def lower_char_def is_space_def)

section \<open>Runtime normalization\<close>

lemma first_positive_map_filter:
  "first_positive rts = (case List.map_filter positive_int rts of [] \<Rightarrow> 0 | n # ns \<Rightarrow> n)"
  by (induction rts) (auto simp add: positive_int_def split: option.splits)

text \<open>
  Claim C6. The normalized runtime is the one the specification describes: for a movie
  the runtime field when it is a strictly positive integer and 0 otherwise (missing, not
  an integer, zero or negative); for a series the first strictly positive integer of the
  episode runtimes and 0 when there is none. An integer is what Python's
  \<^verbatim>\<open>isinstance(x, int)\<close> accepts, so \<^verbatim>\<open>true\<close> counts as 1.
\<close>

theorem normalized_runtime_minutes_spec:
  "normalized_runtime_minutes payload media_type = spec_normalized_runtime payload media_type"
proof (cases "media_type = ''movie''")
  case True
  then show ?thesis
    by (simp add: normalized_runtime_minutes_def spec_normalized_runtime_def positive_int_def
        split: option.splits)
next
  case False
  show ?thesis
  proof (cases "dict_get payload ''episode_run_time''")
    case (JList rts)
    with False show ?thesis
      by (cases rts) (simp_all add: normalized_runtime_minutes_def spec_normalized_runtime_def
          py_or_def first_positive_map_filter)
  qed (use False in \<open>simp_all add: normalized_runtime_minutes_def spec_normalized_runtime_def py_or_def\<close>)
qed

theorem normalized_runtime_minutes_spec_witness:
  "normalized_runtime_minutes [(''episode_run_time'', JList [JInt 0, JInt 0, JInt 45, JInt 30])] ''tv'' = 45
   \<and> normalized_runtime_minutes [(''runtime'', JInt (- 5))] ''movie'' = 0
   \<and> normalized_runtime_minutes [] ''movie'' = 0
   \<and> normalized_runtime_minutes [(''runtime'', JInt 148)] ''movie'' = 148
   \<and> normalized_runtime_minutes [(''runtime'', JStr ''148'')] ''movie'' = 0"
  using normalized_runtime_minutes_spec[of "[(''episode_run_time'', JList [JInt 0, JInt 0, JInt 45, JInt 30])]" "''tv''"]
    normalized_runtime_minutes_spec[of "[(''runtime'', JInt (- 5))]" "''movie''"]
    normalized_runtime_minutes_spec[of "[]" "''movie''"]
    normalized_runtime_minutes_spec[of "[(''runtime'', JInt 148)]" "''movie''"]
    normalized_runtime_minutes_spec[of "[(''runtime'', JStr ''148'')]" "''movie''"]
  by (simp add: spec_normalized_runtime_def positive_int_def dict_get_def)

section \<open>The resolver\<close>

lemma year_matches_candidate:
  "candidate r \<Longrightarrow> year_matches (date_field r) y = Inr (release_year r = Some y)"
  by (auto simp add: candidate_def date_field_def release_year_def py_or_def
      split: json.splits if_splits)

lemma year_scan_find:
  "list_all candidate cs \<Longrightarrow>
   year_scan cs y = (case find (\<lambda>r. release_year r = Some y) cs of
                       Some r \<Rightarrow> identity r | None \<Rightarrow> Inr None)"
  by (induction cs) (auto simp add: year_matches_candidate identity_def split: sum.splits)

lemma candidate_media_type:
  "candidate r \<Longrightarrow> dict_get_default r ''media_type'' (JStr ''movie'') = dict_get r ''media_type''"
  by (auto simp add: candidate_def dict_get_default_def dict_get_def split: option.splits)

lemma identity_not_none: "identity r \<noteq> Inr None"
  by (simp add: identity_def split: sum.splits)

text \<open>
  Claim C3. On candidates as the search hands them over, \<^verbatim>\<open>_pick_best_result\<close> is the
  policy of the specification: no result for an empty list; with a year, the identity of
  the first candidate, in the given order, whose release year equals it; without a year,
  or when no candidate matches, the identity of the first candidate.
\<close>

theorem pick_best_result_spec:
  "list_all candidate cs \<Longrightarrow> pick_best_result cs year = spec_pick_best cs year"
proof (cases cs)
  case Nil
  then show ?thesis by (simp add: pick_best_result_def spec_pick_best_def)
next
  case (Cons c rest)
  assume a: "list_all candidate cs"
  with Cons have c: "candidate c" by simp
  have fb: "(case item_id c of Inl e \<Rightarrow> Inl e
      | Inr i \<Rightarrow> Inr (Some (dict_get_default c ''media_type'' (JStr ''movie''), i))) = identity c"
    by (simp add: identity_def candidate_media_type[OF c] split: sum.splits)
  show ?thesis
  proof (cases year)
    case None
    with Cons fb show ?thesis by (simp add: pick_best_result_def spec_pick_best_def)
  next
    case (Some y)
    show ?thesis
    proof (cases "find (\<lambda>r. release_year r = Some y) cs")
      case None
      with Some Cons fb year_scan_find[OF a, of y] show ?thesis
        by (simp add: pick_best_result_def spec_pick_best_def)
    next
      case (Some r)
      with \<open>year = Some y\<close> Cons year_scan_find[OF a, of y] identity_not_none[of r] show ?thesis
        by (cases "identity r") (auto simp add: pick_best_result_def spec_pick_best_def split: option.splits)
    qed
  qed
qed

text \<open>The second candidate alone matches the year 2010 and is returned; for the year
  1999, which no candidate has, and without a year, the first one is.\<close>

theorem pick_best_result_spec_witness:
  "list_all candidate [sample_series, sample_movie]
   \<and> pick_best_result [] (Some 2010) = Inr None
   \<and> pick_best_result [sample_series, sample_movie] (Some 2010) = Inr (Some (JStr ''movie'', 27205))
   \<and> pick_best_result [sample_series, sample_movie] (Some 1999) = Inr (Some (JStr ''tv'', 5))
   \<and> pick_best_result [sample_series, sample_movie] None = Inr (Some (JStr ''tv'', 5))"
proof -
  have c: "list_all candidate [sample_series, sample_movie]"
    by (simp add: candidate_def dict_get_def sample_series_def sample_movie_def)
  have y1: "release_year sample_series = Some 2001"
    by (simp add: release_year_def dict_get_def is_digit_def digits_val_def digit_val_def
        sample_series_def)
  have y2: "release_year sample_movie = Some 2010"
    by (simp add: release_year_def dict_get_def is_digit_def digits_val_def digit_val_def
        sample_movie_def)
  have i1: "identity sample_series = Inr (Some (JStr ''tv'', 5))"
    by (simp add: identity_def item_id_def dict_item_def dict_get_def sample_series_def)
  have i2: "identity sample_movie = Inr (Some (JStr ''movie'', 27205))"
    by (simp add: identity_def item_id_def dict_item_def dict_get_def sample_movie_def)
  show ?thesis
    using c pick_best_result_spec[OF c, of "Some 2010"] pick_best_result_spec[OF c, of "Some 1999"]
      pick_best_result_spec[OF c, of None] pick_best_result_spec[of "[]" "Some 2010"] y1 y2 i1 i2
    by (simp add: spec_pick_best_def)
qed

section \<open>The record fetch\<close>

lemma normalized_runtime_media_type:
  "normalized_runtime_minutes (AList.update ''_media_type'' v d) mt = normalized_runtime_minutes d mt"
  by (simp add: normalized_runtime_minutes_def dict_get_def update_conv')

text \<open>
  Claim C4. \<^verbatim>\<open>title_with_credits\<close> first reads the title file of its key. On a hit it
  returns the cached record and leaves the world as it is: no request is sent. On a miss
  whose request succeeds with an object it sends exactly that one request, returns the
  payload with the two derived fields set and every other field kept, and has written the
  returned record to the title file. On a miss whose request fails it raises the
  transport error after that one request and writes nothing.
\<close>

theorem title_with_credits_spec:
  "(load_title_from_cache w mt i \<noteq> JNull \<longrightarrow>
      title_with_credits api mt i w = (Inr (load_title_from_cache w mt i), w))
   \<and> (load_title_from_cache w mt i = JNull \<longrightarrow> fetch_api api mt i = Some (JObj d) \<longrightarrow>
      (\<exists>record w'. title_with_credits api mt i w = (Inr (JObj record), w')
         \<and> calls w' = calls w @ [FetchCall mt i]
         \<and> title_files w' = (title_files w)(title_cache_path mt i \<mapsto> Parsed (JObj record))
         \<and> search_cache_file w' = search_cache_file w
         \<and> load_title_from_cache w' mt i = JObj record
         \<and> dict_get record ''_media_type'' = JStr mt
         \<and> dict_get record ''_normalized_runtime'' = JInt (normalized_runtime_minutes d mt)
         \<and> (\<forall>k. k \<noteq> ''_media_type'' \<and> k \<noteq> ''_normalized_runtime'' \<longrightarrow> map_of record k = map_of d k)))
   \<and> (load_title_from_cache w mt i = JNull \<longrightarrow> fetch_api api mt i = None \<longrightarrow>
      title_with_credits api mt i w = (Inl TransportError, w\<lparr>calls := calls w @ [FetchCall mt i]\<rparr>))"
  by (auto simp add: title_with_credits_def fetch_record_def augment_def log_fetch_def
      save_title_to_cache_def load_title_from_cache_def dict_get_def update_conv'
      normalized_runtime_media_type Let_def)

theorem title_with_credits_spec_witness:
  "load_title_from_cache empty_world ''movie'' 27205 = JNull
   \<and> fetch_api sample_api ''movie'' 27205 = Some (JObj [(''runtime'', JInt 148)])
   \<and> fst (title_with_credits sample_api ''movie'' 27205 empty_world) =
       Inr (JObj [(''runtime'', JInt 148), (''_media_type'', JStr ''movie''),
                  (''_normalized_runtime'', JInt 148)])
   \<and> calls (snd (title_with_credits sample_api ''movie'' 27205 empty_world)) =
       [FetchCall ''movie'' 27205]
   \<and> title_with_credits sample_api ''movie'' 27205
        (snd (title_with_credits sample_api ''movie'' 27205 empty_world)) =
       (Inr (JObj [(''runtime'', JInt 148), (''_media_type'', JStr ''movie''),
                   (''_normalized_runtime'', JInt 148)]),
        snd (title_with_credits sample_api ''movie'' 27205 empty_world))
   \<and> title_with_credits sample_api ''tv'' 1 empty_world =
       (Inl TransportError, empty_world\<lparr>calls := calls empty_world @ [FetchCall ''tv'' 1]\<rparr>)"
proof -
  let ?w = "snd (title_with_credits sample_api ''movie'' 27205 empty_world)"
  have m: "load_title_from_cache empty_world ''movie'' 27205 = JNull"
    by (simp add: load_title_from_cache_def empty_world_def)
  have m': "load_title_from_cache empty_world ''tv'' 1 = JNull"
    by (simp add: load_title_from_cache_def empty_world_def)
  have f: "fetch_api sample_api ''movie'' 27205 = Some (JObj [(''runtime'', JInt 148)])"
    by (simp add: sample_api_def)
  have f': "fetch_api sample_api ''tv'' 1 = None"
    by (simp add: sample_api_def)
  have r: "title_with_credits sample_api ''movie'' 27205 empty_world =
      (Inr (JObj [(''runtime'', JInt 148), (''_media_type'', JStr ''movie''),
                  (''_normalized_runtime'', JInt 148)]),
       save_title_to_cache (log_fetch empty_world ''movie'' 27205) ''movie'' 27205
         (JObj [(''runtime'', JInt 148), (''_media_type'', JStr ''movie''),
                  (''_normalized_runtime'', JInt 148)]))"
    by (simp add: title_with_credits_def m fetch_record_def f augment_def
        normalized_runtime_minutes_def dict_get_def)
  have h: "load_title_from_cache ?w ''movie'' 27205 =
      JObj [(''runtime'', JInt 148), (''_media_type'', JStr ''movie''),
            (''_normalized_runtime'', JInt 148)]"
    unfolding r by (simp add: load_title_from_cache_def save_title_to_cache_def)
  have a1: "fst (title_with_credits sample_api ''movie'' 27205 empty_world) =
       Inr (JObj [(''runtime'', JInt 148), (''_media_type'', JStr ''movie''),
                  (''_normalized_runtime'', JInt 148)])"
    by (simp add: r)
  have a2: "calls ?w = [FetchCall ''movie'' 27205]"
    unfolding r by (simp add: log_fetch_def save_title_to_cache_def empty_world_def)
  have a3: "title_with_credits sample_api ''movie'' 27205 ?w =
       (Inr (JObj [(''runtime'', JInt 148), (''_media_type'', JStr ''movie''),
                   (''_normalized_runtime'', JInt 148)]), ?w)"
    using title_with_credits_spec[of ?w "''movie''" 27205 sample_api "[]"] h by simp
  have a4: "title_with_credits sample_api ''tv'' 1 empty_world =
       (Inl TransportError, empty_world\<lparr>calls := calls empty_world @ [FetchCall ''tv'' 1]\<rparr>)"
    using title_with_credits_spec[of empty_world "''tv''" 1 sample_api "[]"] m' f' by simp
  show ?thesis
    using m f a1 a2 a3 a4 by blast
qed

section \<open>The pool: transitions\<close>

lemma fold_step_invariant:
  assumes "P c" and "\<And>c i. P c \<Longrightarrow> P (step api qs mw i c)"
  shows "P (fold (step api qs mw) xs c)"
  using assms(1) by (induction xs arbitrary: c) (auto intro: assms(2))

lemma search_multi_resolve:
  "search_multi api title w = (r, w') \<Longrightarrow>
     w' = w\<lparr>calls := calls w @ [SearchCall title]\<rparr> \<and>
     resolve api (title, year) =
       (case r of Inl e \<Rightarrow> Inl e | Inr results \<Rightarrow> pick_best_result results year)"
  by (auto simp add: search_multi_def resolve_def split: option.splits sum.splits)

lemma worker_action_cases [consumes 1, case_names hit miss bad search_fail search_ok
    write_none write_some write_fail unmatched cached uncached fetch_fail fetch_ok save finished]:
  assumes "worker_action api (title, year) s sc w = (s', sc', w')"
  obtains
    (hit) v m i where "s = Queued" "cache_get sc (search_cache_key title year) = Inr v"
      "v \<noteq> JNull" "read_entry v = Inr (m, i)" "s' = Resolved m i" "sc' = sc" "w' = w"
  | (miss) "s = Queued" "cache_get sc (search_cache_key title year) = Inr JNull"
      "s' = Missed" "sc' = sc" "w' = w"
  | (bad) e where "s = Queued" "s' = Done (Inl e)" "sc' = sc" "w' = w"
      "cache_get sc (search_cache_key title year) = Inl e \<or>
       (\<exists>v. cache_get sc (search_cache_key title year) = Inr v \<and> v \<noteq> JNull
            \<and> read_entry v = Inl e)"
  | (search_fail) e where "s = Missed" "resolve api (title, year) = Inl e"
      "s' = Done (Inl e)" "sc' = sc" "w' = w\<lparr>calls := calls w @ [SearchCall title]\<rparr>"
  | (search_ok) p where "s = Missed" "resolve api (title, year) = Inr p"
      "s' = Searched p" "sc' = sc" "w' = w\<lparr>calls := calls w @ [SearchCall title]\<rparr>"
  | (write_none) d where "s = Searched None" "sc = JObj d"
      "sc' = JObj (AList.update (search_cache_key title year) (cache_entry JNull 0) d)"
      "s' = Done (Inr (NO_MATCH title year))" "w' = w"
  | (write_some) d m i where "s = Searched (Some (m, i))" "sc = JObj d"
      "sc' = JObj (AList.update (search_cache_key title year) (cache_entry m i) d)"
      "s' = Resolved m i" "w' = w"
  | (write_fail) p where "s = Searched p" "\<forall>d. sc \<noteq> JObj d" "s' = Done (Inl TypeError)"
      "sc' = sc" "w' = w"
  | (unmatched) m i where "s = Resolved m i" "\<not> fetchable m i"
      "s' = Done (Inr (NO_MATCH title year))" "sc' = sc" "w' = w"
  | (cached) mt i where "s = Resolved (JStr mt) i" "fetchable (JStr mt) i"
      "load_title_from_cache w mt i \<noteq> JNull"
      "s' = Done (Inr (OK (load_title_from_cache w mt i)))" "sc' = sc" "w' = w"
  | (uncached) mt i where "s = Resolved (JStr mt) i" "fetchable (JStr mt) i"
      "load_title_from_cache w mt i = JNull" "s' = Fetching mt i" "sc' = sc" "w' = w"
  | (fetch_fail) mt i e where "s = Fetching mt i" "fetch_record api mt i = Inl e"
      "s' = Done (Inl e)" "sc' = sc" "w' = log_fetch w mt i"
  | (fetch_ok) mt i p where "s = Fetching mt i" "fetch_record api mt i = Inr p"
      "s' = Fetched mt i p" "sc' = sc" "w' = log_fetch w mt i"
  | (save) mt i p where "s = Fetched mt i p" "s' = Done (Inr (OK p))" "sc' = sc"
      "w' = save_title_to_cache w mt i p"
  | (finished) r where "s = Done r" "s' = Done r" "sc' = sc" "w' = w"
proof (cases s)
  case Queued
  with assms show ?thesis
    by (auto split: sum.splits if_splits prod.splits intro: hit miss bad)
next
  case Missed
  obtain r w1 where sm: "search_multi api title w = (r, w1)" by (cases "search_multi api title w")
  from search_multi_resolve[OF sm, of year] Missed assms sm show ?thesis
    by (auto split: sum.splits intro: search_fail search_ok)
next
  case (Searched p)
  show ?thesis
  proof (cases p)
    case None
    with Searched assms show ?thesis
      by (cases sc) (auto simp add: cache_set_def intro: write_none write_fail)
  next
    case (Some mi)
    with Searched assms show ?thesis
      by (cases mi; cases sc) (auto simp add: cache_set_def intro: write_some write_fail)
  qed
next
  case (Resolved m i)
  show ?thesis
  proof (cases "fetchable m i")
    case False
    with Resolved assms show ?thesis
      by (auto simp add: fetchable_def intro: unmatched)
  next
    case True
    then obtain mt where "m = JStr mt" by (auto simp add: fetchable_def)
    with True Resolved assms show ?thesis
      by (auto simp add: fetchable_def Let_def split: if_splits intro: cached uncached)
  qed
next
  case (Fetching mt i)
  with assms show ?thesis
    by (auto split: sum.splits intro: fetch_fail fetch_ok)
next
  case (Fetched mt i p)
  with assms show ?thesis by (auto intro: save)
next
  case (Done r)
  with assms show ?thesis by (auto intro: finished)
qed

lemma step_cases [case_names idle act]:
  obtains (idle) "step api qs mw i c = c"
  | (act) title year s sc' w' where "i < length (workers c)" "i < length qs"
      "may_run mw i (workers c)" "qs ! i = (title, year)"
      "worker_action api (title, year) (workers c ! i) (cache c) (env c) = (s, sc', w')"
      "env (step api qs mw i c) = w'" "cache (step api qs mw i c) = sc'"
      "workers (step api qs mw i c) = (workers c)[i := s]"
      "completed (step api qs mw i c) =
         (case s of
            Done r \<Rightarrow> if is_done (workers c ! i) then completed c else completed c @ [(i, r)]
          | other \<Rightarrow> completed c)"
proof (cases "i < length (workers c) \<and> i < length qs \<and> may_run mw i (workers c)")
  case False
  then have "step api qs mw i c = c" by (auto simp add: step_def)
  then show ?thesis by (rule idle)
next
  case True
  obtain title year where q: "qs ! i = (title, year)" by (cases "qs ! i")
  obtain s sc' w' where
    a: "worker_action api (title, year) (workers c ! i) (cache c) (env c) = (s, sc', w')"
    by (cases "worker_action api (title, year) (workers c ! i) (cache c) (env c)")
  from True q a show ?thesis
    by (intro act[of title year s sc' w']) (simp_all add: step_def)
qed

section \<open>The pool: every worker finishes\<close>

lemma worker_action_rank:
  assumes "worker_action api (title, year) s sc w = (s', sc', w')"
  shows "rank s' < rank s \<or> (\<exists>r. s = Done r \<and> s' = Done r)"
  using assms by (cases rule: worker_action_cases) auto

lemma worker_action_not_queued:
  assumes "worker_action api (title, year) s sc w = (s', sc', w')"
  shows "s' \<noteq> Queued"
  using assms by (cases rule: worker_action_cases) auto

lemma rank_zero: "rank s = 0 \<Longrightarrow> \<exists>r. s = Done r"
  by (cases s) auto

lemma pool_ok_init: "pool_ok n (init_config w sc n)"
  by (simp add: pool_ok_def init_config_def)

lemma pool_ok_step:
  assumes "length qs = n" "pool_ok n c"
  shows "pool_ok n (step api qs mw i c)"
proof (cases rule: step_cases[of api qs mw i c])
  case idle
  with assms show ?thesis by simp
next
  case (act title year s sc' w')
  let ?c = "step api qs mw i c"
  from assms have len: "length (workers c) = n" by (simp add: pool_ok_def)
  from act(5) have nq: "s \<noteq> Queued" by (rule worker_action_not_queued)
  from act(5) have rk: "rank s < rank (workers c ! i) \<or> (\<exists>r. workers c ! i = Done r \<and> s = Done r)"
    by (rule worker_action_rank)
  have l: "length (workers ?c) = n" using act(8) len by simp
  have fifo: "\<forall>j k. j < k \<and> k < n \<and> workers ?c ! k \<noteq> Queued \<longrightarrow> workers ?c ! j \<noteq> Queued"
  proof (intro allI impI)
    fix j k assume h: "j < k \<and> k < n \<and> workers ?c ! k \<noteq> Queued"
    show "workers ?c ! j \<noteq> Queued"
    proof (cases "j = i")
      case True
      with act(8) nq len act(1) show ?thesis by simp
    next
      case False
      show ?thesis
      proof (cases "k = i")
        case True
        show ?thesis
        proof (cases "workers c ! i = Queued")
          case True
          with act(3) have "list_all (\<lambda>s. s \<noteq> Queued) (take i (workers c))"
            by (simp add: may_run_def)
          with h \<open>k = i\<close> len have "workers c ! j \<noteq> Queued"
            by (simp add: list_all_length)
          with False act(8) show ?thesis by simp
        next
          case False
          with assms(2) h \<open>k = i\<close> have "workers c ! j \<noteq> Queued"
            by (auto simp add: pool_ok_def)
          with \<open>j \<noteq> i\<close> act(8) show ?thesis by simp
        qed
      next
        case False
        with h act(8) have "workers c ! k \<noteq> Queued" by simp
        with assms(2) h have "workers c ! j \<noteq> Queued" by (auto simp add: pool_ok_def)
        with \<open>j \<noteq> i\<close> act(8) show ?thesis by simp
      qed
    qed
  qed
  have old: "\<forall>j r. ((j, r) \<in> set (completed c)) = (j < n \<and> workers c ! j = Done r)"
    and dist: "distinct (map fst (completed c))"
    using assms(2) by (simp_all add: pool_ok_def)
  have comp: "distinct (map fst (completed ?c)) \<and>
      (\<forall>j r. ((j, r) \<in> set (completed ?c)) = (j < n \<and> workers ?c ! j = Done r))"
  proof (cases "\<exists>r. workers c ! i = Done r")
    case True
    then obtain r where r: "workers c ! i = Done r" by blast
    with rk have "s = Done r" by auto
    with r act(8,9) have "workers ?c = workers c" "completed ?c = completed c"
      by (simp_all add: list_update_id[of "workers c" i, unfolded r])
    with old dist show ?thesis by simp
  next
    case False
    then have nd: "\<not> is_done (workers c ! i)" by (cases "workers c ! i") auto
    show ?thesis
    proof (cases "\<exists>r. s = Done r")
      case True
      then obtain r where Done: "s = Done r" by blast
      from False old act(1) len have "i \<notin> fst ` set (completed c)" by force
      with Done nd act(9) dist have d: "distinct (map fst (completed ?c))" by simp
      have "\<forall>j r'. ((j, r') \<in> set (completed ?c)) = (j < n \<and> workers ?c ! j = Done r')"
      proof (intro allI)
        fix j r'
        show "((j, r') \<in> set (completed ?c)) = (j < n \<and> workers ?c ! j = Done r')"
        proof (cases "j = i")
          case True
          with Done nd act(1,8,9) len False old show ?thesis by auto
        next
          case False
          with Done nd act(8,9) old show ?thesis by auto
        qed
      qed
      with d show ?thesis by simp
    next
      case nds: False
      with act(9) have c9: "completed ?c = completed c" by (cases s) auto
      have "\<forall>j r. j < n \<longrightarrow> (workers ?c ! j = Done r) = (workers c ! j = Done r)"
        using act(8) False nds len by (metis nth_list_update_eq nth_list_update_neq)
      with c9 old dist show ?thesis by auto
    qed
  qed
  from l fifo comp show ?thesis by (simp add: pool_ok_def)
qed

lemma step_other:
  "j \<noteq> i \<Longrightarrow> workers (step api qs mw i c) ! j = workers c ! j"
  by (cases rule: step_cases[of api qs mw i c]) simp_all

lemma step_done:
  assumes "workers c ! j = Done r" "j < length (workers c)"
  shows "workers (step api qs mw i c) ! j = Done r"
proof (cases rule: step_cases[of api qs mw i c])
  case idle
  with assms show ?thesis by simp
next
  case (act title year s sc' w')
  show ?thesis
  proof (cases "j = i")
    case True
    with assms act(5) have "s = Done r" using worker_action_rank by fastforce
    with True act(8) assms show ?thesis by simp
  next
    case False
    with act(8) assms show ?thesis by simp
  qed
qed

lemma step_act:
  assumes "i < length (workers c)" "i < length qs" "may_run mw i (workers c)"
  obtains title year s sc' w' where "qs ! i = (title, year)"
    "worker_action api (title, year) (workers c ! i) (cache c) (env c) = (s, sc', w')"
    "workers (step api qs mw i c) = (workers c)[i := s]"
proof -
  obtain title year where q: "qs ! i = (title, year)" by (cases "qs ! i")
  obtain s sc' w' where
    a: "worker_action api (title, year) (workers c ! i) (cache c) (env c) = (s, sc', w')"
    by (cases "worker_action api (title, year) (workers c ! i) (cache c) (env c)")
  from assms q a have "workers (step api qs mw i c) = (workers c)[i := s]"
    by (simp add: step_def)
  with q a show ?thesis by (rule that)
qed

lemma may_run_drain:
  assumes "pool_ok n c" "k < n" "\<forall>j<k. is_done (workers c ! j)" "0 < mw"
  shows "may_run mw k (workers c)"
proof (cases "workers c ! k = Queued")
  case False
  then show ?thesis by (simp add: may_run_def)
next
  case True
  from assms(1) have len: "length (workers c) = n" by (simp add: pool_ok_def)
  have before: "list_all (\<lambda>s. s \<noteq> Queued) (take k (workers c))"
    using assms(2,3) len by (auto simp add: list_all_length)
  have "\<not> running (workers c ! j)" if "j < n" for j
  proof (cases "j < k")
    case True
    with assms(3) show ?thesis by (simp add: running_def)
  next
    case False
    have "workers c ! j = Queued"
    proof (cases "j = k")
      case True with \<open>workers c ! k = Queued\<close> show ?thesis by simp
    next
      case False
      with \<open>\<not> j < k\<close> have "k < j" by simp
      with assms(1) that \<open>workers c ! k = Queued\<close> show ?thesis
        by (auto simp add: pool_ok_def)
    qed
    then show ?thesis by (simp add: running_def)
  qed
  with len have "filter running (workers c) = []"
    by (auto simp add: filter_empty_conv in_set_conv_nth)
  with True before assms(4) show ?thesis by (simp add: may_run_def)
qed

lemma drain_worker:
  assumes "length qs = n" "k < n" "0 < mw"
  shows "pool_ok n c \<Longrightarrow> \<forall>j<k. is_done (workers c ! j) \<Longrightarrow>
    pool_ok n (fold (step api qs mw) (replicate m k) c)
    \<and> (\<forall>j<k. is_done (workers (fold (step api qs mw) (replicate m k) c) ! j))
    \<and> rank (workers (fold (step api qs mw) (replicate m k) c) ! k) \<le> rank (workers c ! k) - m"
proof (induction m arbitrary: c)
  case 0
  then show ?case by simp
next
  case (Suc m)
  let ?c = "step api qs mw k c"
  from Suc.prems(1) have len: "length (workers c) = n" by (simp add: pool_ok_def)
  have ok: "pool_ok n ?c" using assms(1) Suc.prems(1) by (rule pool_ok_step)
  have dn: "\<forall>j<k. is_done (workers ?c ! j)"
  proof (intro allI impI)
    fix j assume "j < k"
    with Suc.prems(2) obtain r where "workers c ! j = Done r"
      by (cases "workers c ! j") auto
    with \<open>j < k\<close> assms(2) len have "workers ?c ! j = Done r" by (intro step_done) simp_all
    then show "is_done (workers ?c ! j)" by simp
  qed
  have mr: "may_run mw k (workers c)"
    using Suc.prems(1) assms(2) Suc.prems(2) assms(3) by (rule may_run_drain)
  have rk: "rank (workers ?c ! k) \<le> rank (workers c ! k) - 1"
  proof -
    have "k < length (workers c)" "k < length qs" using len assms(1,2) by simp_all
    from step_act[OF this mr, of api] obtain title year s sc' w' where
      a: "worker_action api (title, year) (workers c ! k) (cache c) (env c) = (s, sc', w')"
      and w: "workers ?c = (workers c)[k := s]"
      by metis
    from worker_action_rank[OF a] w len assms(2) show ?thesis by auto
  qed
  from Suc.IH[OF ok dn]
  have a: "pool_ok n (fold (step api qs mw) (replicate m k) ?c)"
    and b: "\<forall>j<k. is_done (workers (fold (step api qs mw) (replicate m k) ?c) ! j)"
    and r: "rank (workers (fold (step api qs mw) (replicate m k) ?c) ! k) \<le> rank (workers ?c ! k) - m"
    by blast+
  from r rk have "rank (workers (fold (step api qs mw) (replicate m k) ?c) ! k)
      \<le> rank (workers c ! k) - Suc m" by linarith
  with a b show ?case by (simp del: fold_replicate)
qed

lemma drain_prefix:
  assumes "length qs = n" "0 < mw"
  shows "k \<le> n \<Longrightarrow> pool_ok n c \<Longrightarrow>
    pool_ok n (fold (step api qs mw) (drain k) c)
    \<and> (\<forall>j<k. is_done (workers (fold (step api qs mw) (drain k) c) ! j))"
proof (induction k)
  case 0
  then show ?case by (simp add: drain_def)
next
  case (Suc k)
  let ?c = "fold (step api qs mw) (drain k) c"
  from Suc have ih: "pool_ok n ?c" "\<forall>j<k. is_done (workers ?c ! j)" by simp_all
  from Suc.prems(1) have kn: "k < n" by simp
  have d: "fold (step api qs mw) (drain (Suc k)) c = fold (step api qs mw) (replicate 6 k) ?c"
    by (simp add: drain_def del: fold_replicate)
  from drain_worker[OF assms(1) kn assms(2) ih, of api 6]
  have ok: "pool_ok n (fold (step api qs mw) (replicate 6 k) ?c)"
    and dn: "\<forall>j<k. is_done (workers (fold (step api qs mw) (replicate 6 k) ?c) ! j)"
    and rk: "rank (workers (fold (step api qs mw) (replicate 6 k) ?c) ! k) \<le> rank (workers ?c ! k) - 6"
    by blast+
  have "rank (workers ?c ! k) \<le> 6" by (cases "workers ?c ! k") simp_all
  with rk have "rank (workers (fold (step api qs mw) (replicate 6 k) ?c) ! k) = 0" by simp
  then have "is_done (workers (fold (step api qs mw) (replicate 6 k) ?c) ! k)"
    by (cases "workers (fold (step api qs mw) (replicate 6 k) ?c) ! k") simp_all
  with dn have "\<forall>j<Suc k. is_done (workers (fold (step api qs mw) (replicate 6 k) ?c) ! j)"
    by (simp add: less_Suc_eq)
  with ok d show ?case by simp
qed

lemma run_pool_done:
  assumes "0 < mw" "length qs = n"
  shows "pool_ok n (run_pool api qs mw sched (init_config w sc n))
    \<and> (\<forall>j<n. is_done (workers (run_pool api qs mw sched (init_config w sc n)) ! j))"
proof -
  have "pool_ok n (fold (step api qs mw) sched (init_config w sc n))"
    by (rule fold_step_invariant) (simp_all add: pool_ok_init pool_ok_step[OF assms(2)])
  from drain_prefix[OF assms(2,1) le_refl this, of api] assms(2) show ?thesis
    by (simp add: run_pool_def)
qed

section \<open>Sample runs\<close>

lemma key_simps:
  "search_cache_key ''Inception'' (Some 2010) = ''inception|2010''"
  "search_cache_key ''inception'' (Some 2010) = ''inception|2010''"
  "search_cache_key ''Fail'' None = ''fail|''"
  "search_cache_key ''Nothing'' None = ''nothing|''"
  "search_cache_key ''Zero'' None = ''zero|''"
  "search_cache_key ''x'' None = ''x|''"
  by (simp_all add: search_cache_key_def lower_def strip_def lower_char_def is_space_def
      year_text_def str_int_def str_nat.simps digit_char_def)

lemma path_simps:
  "title_cache_path ''movie'' 27205 = ''.cache/titles/movie_27205.json''"
  "title_cache_path ''movie'' 64956 = ''.cache/titles/movie_64956.json''"
  by (simp_all add: title_cache_path_def str_int_def str_nat.simps digit_char_def)

lemma sample_search:
  "search_multi sample_api ''Inception'' w =
     (Inr [sample_series, sample_movie], w\<lparr>calls := calls w @ [SearchCall ''Inception'']\<rparr>)"
  "search_multi sample_api ''inception'' w =
     (Inr [[(''media_type'', JStr ''movie''), (''id'', JInt 64956)]],
      w\<lparr>calls := calls w @ [SearchCall ''inception'']\<rparr>)"
  "search_multi sample_api ''Nothing'' w = (Inr [], w\<lparr>calls := calls w @ [SearchCall ''Nothing'']\<rparr>)"
  "search_multi sample_api ''Zero'' w =
     (Inr [[(''media_type'', JStr ''movie''), (''id'', JInt 0)]],
      w\<lparr>calls := calls w @ [SearchCall ''Zero'']\<rparr>)"
  "search_multi sample_api ''Fail'' w =
     (Inl TransportError, w\<lparr>calls := calls w @ [SearchCall ''Fail'']\<rparr>)"
  by (simp_all add: search_multi_def sample_api_def search_results_def dict_get_default_def
      dict_get_def sample_series_def sample_movie_def)

lemma sample_pick:
  "pick_best_result [sample_series, sample_movie] (Some 2010) = Inr (Some (JStr ''movie'', 27205))"
  "pick_best_result [[(''media_type'', JStr ''movie''), (''id'', JInt 64956)]] (Some 2010) =
     Inr (Some (JStr ''movie'', 64956))"
  "pick_best_result [[(''media_type'', JStr ''movie''), (''id'', JInt 0)]] None =
     Inr (Some (JStr ''movie'', 0))"
  "pick_best_result [] y = Inr None"
  by (simp_all add: pick_best_result_def date_field_def dict_get_def dict_get_default_def py_or_def
      item_id_def dict_item_def is_digit_def digits_val_def digit_val_def
      sample_series_def sample_movie_def)

lemma sample_fetch:
  "fetch_record sample_api ''movie'' 27205 =
     Inr (JObj [(''runtime'', JInt 148), (''_media_type'', JStr ''movie''),
                (''_normalized_runtime'', JInt 148)])"
  "fetch_record sample_api ''movie'' 64956 =
     Inr (JObj [(''runtime'', JInt 100), (''_media_type'', JStr ''movie''),
                (''_normalized_runtime'', JInt 100)])"
  by (simp_all add: fetch_record_def sample_api_def augment_def normalized_runtime_minutes_def
      dict_get_def)

lemma drain_simps:
  "drain 1 = [0, 0, 0, 0, 0, 0]"
  "drain 2 = [0, 0, 0, 0, 0, 0, 1, 1, 1, 1, 1, 1]"
  "drain (Suc 0) = [0, 0, 0, 0, 0, 0]"
  "drain (Suc (Suc 0)) = [0, 0, 0, 0, 0, 0, 1, 1, 1, 1, 1, 1]"
  by (simp_all add: drain_def upt_rec eval_nat_numeral)

lemma init_simps:
  "init_config w sc 1 = \<lparr>env = w, cache = sc, workers = [Queued], completed = []\<rparr>"
  "init_config w sc 2 = \<lparr>env = w, cache = sc, workers = [Queued, Queued], completed = []\<rparr>"
  "init_config w sc (Suc 0) = \<lparr>env = w, cache = sc, workers = [Queued], completed = []\<rparr>"
  by (simp_all add: init_config_def eval_nat_numeral)

lemmas run_simps = step_def may_run_def running_def cache_get_def cache_set_def dict_get_def
  read_entry_def cache_entry_def py_or_def log_fetch_def
  load_title_from_cache_def save_title_to_cache_def key_simps path_simps
  sample_search sample_pick sample_fetch


lemma load_empty_world: "load_search_cache empty_world = JObj []"
  by (simp add: load_search_cache_def empty_world_def)

section \<open>A worker that raises\<close>

lemma collect_raises: "Inl e \<in> set rs \<Longrightarrow> \<exists>e'. collect rs xs ys = Inl e'"
proof (induction rs arbitrary: xs ys)
  case Nil
  then show ?case by simp
next
  case (Cons r rs)
  show ?case
  proof (cases r)
    case (Inl e0)
    then show ?thesis by simp
  next
    case (Inr ob)
    with Cons show ?thesis by (cases ob) auto
  qed
qed

lemma collect_returns:
  "\<forall>r\<in>set rs. \<exists>ob. r = Inr ob \<Longrightarrow> \<exists>res. collect rs xs ys = Inr res"
proof (induction rs arbitrary: xs ys)
  case Nil
  then show ?case by simp
next
  case (Cons r rs)
  then obtain ob where "r = Inr ob" by auto
  with Cons show ?case by (cases ob) auto
qed

lemma step_search_cache_file:
  "search_cache_file (env (step api qs mw i c)) = search_cache_file (env c)"
proof (cases rule: step_cases[of api qs mw i c])
  case idle
  then show ?thesis by simp
next
  case (act title year s sc' w')
  from act(5) have "search_cache_file w' = search_cache_file (env c)"
    by (cases rule: worker_action_cases) (simp_all add: log_fetch_def save_title_to_cache_def)
  with act(6) show ?thesis by simp
qed

lemma run_pool_search_cache_file:
  "search_cache_file (env (run_pool api qs mw sched c)) = search_cache_file (env c)"
  unfolding run_pool_def
  by (rule fold_step_invariant[where P = "\<lambda>c'. search_cache_file (env c') = search_cache_file (env c)"])
    (simp_all add: step_search_cache_file)




section \<open>Cached entries\<close>





















section \<open>The entries a batch writes\<close>

lemma keep_movie_tv_types:
  "keep_movie_tv xs = Inr ds \<Longrightarrow> r \<in> set ds \<Longrightarrow>
     dict_get r ''media_type'' = JStr ''movie'' \<or> dict_get r ''media_type'' = JStr ''tv''"
proof (induction xs arbitrary: ds rule: keep_movie_tv.induct)
  case 1
  then show ?case by simp
next
  case (2 d xs)
  then show ?case by (auto split: sum.splits if_splits)
qed simp_all

lemma search_results_types:
  "search_results body = Inr rs \<Longrightarrow> r \<in> set rs \<Longrightarrow>
     dict_get r ''media_type'' = JStr ''movie'' \<or> dict_get r ''media_type'' = JStr ''tv''"
  by (auto simp add: search_results_def split: json.splits if_splits dest: keep_movie_tv_types)

lemma year_scan_member:
  "year_scan rs y = Inr (Some (m, i)) \<Longrightarrow>
     \<exists>r\<in>set rs. m = dict_get r ''media_type'' \<and> item_id r = Inr i"
  by (induction rs) (auto split: sum.splits bool.splits)

lemma typed_default:
  "dict_get r ''media_type'' = JStr ''movie'' \<or> dict_get r ''media_type'' = JStr ''tv'' \<Longrightarrow>
     dict_get_default r ''media_type'' (JStr ''movie'') = dict_get r ''media_type''"
  by (auto simp add: dict_get_def dict_get_default_def split: option.splits)

lemma pick_best_result_member:
  assumes "pick_best_result rs y = Inr (Some (m, i))"
    and "\<forall>r\<in>set rs. dict_get r ''media_type'' = JStr ''movie'' \<or> dict_get r ''media_type'' = JStr ''tv''"
  shows "\<exists>r\<in>set rs. m = dict_get r ''media_type'' \<and> item_id r = Inr i"
proof (cases rs)
  case Nil
  with assms(1) show ?thesis by (simp add: pick_best_result_def)
next
  case (Cons c rest)
  with assms(2) have c: "dict_get_default c ''media_type'' (JStr ''movie'') = dict_get c ''media_type''"
    by (simp add: typed_default)
  let ?scan = "case y of None \<Rightarrow> Inr None | Some y' \<Rightarrow> year_scan (c # rest) y'"
  from assms(1) Cons have pb: "(case ?scan of
             Inl e \<Rightarrow> Inl e
           | Inr (Some picked) \<Rightarrow> Inr (Some picked)
           | Inr None \<Rightarrow>
               (case item_id c of
                  Inl e \<Rightarrow> Inl e
                | Inr i \<Rightarrow> Inr (Some (dict_get_default c ''media_type'' (JStr ''movie''), i))))
      = Inr (Some (m, i))"
    by (simp add: pick_best_result_def)
  show ?thesis
  proof (cases ?scan)
    case (Inl e)
    with pb show ?thesis by simp
  next
    case (Inr p)
    show ?thesis
    proof (cases p)
      case None
      with Inr pb c have "m = dict_get c ''media_type'' \<and> item_id c = Inr i"
        by (auto split: sum.splits)
      with Cons show ?thesis by simp
    next
      case (Some mi)
      with Inr pb have "mi = (m, i)" by simp
      with Some Inr obtain y' where "y = Some y'" "year_scan (c # rest) y' = Inr (Some (m, i))"
        by (cases y) auto
      with Cons show ?thesis using year_scan_member by blast
    qed
  qed
qed

lemma resolve_member:
  assumes "resolve api q = Inr (Some (m, i))"
  shows "(m = JStr ''movie'' \<or> m = JStr ''tv'') \<and> (positive_ids api \<longrightarrow> 0 < i)"
proof -
  from assms obtain body rs where b: "search_api api (fst q) = Some body"
    and rs: "search_results body = Inr rs" and p: "pick_best_result rs (snd q) = Inr (Some (m, i))"
    by (auto simp add: resolve_def split: option.splits sum.splits)
  from rs have ty: "\<forall>r\<in>set rs. dict_get r ''media_type'' = JStr ''movie'' \<or> dict_get r ''media_type'' = JStr ''tv''"
    using search_results_types by blast
  from pick_best_result_member[OF p ty] obtain r where
    r: "r \<in> set rs" "m = dict_get r ''media_type''" "item_id r = Inr i" by blast
  with ty b rs show ?thesis by (auto simp add: positive_ids_def)
qed

lemma entry_written_entry:
  "entry_written (cache_entry m i) = (m = JNull \<and> i = 0 \<or> m = JStr ''movie'' \<or> m = JStr ''tv'')"
  by (simp add: entry_written_def cache_entry_def dict_get_def)

lemma entry_sound_entry:
  "entry_sound (cache_entry m i) = (m = JNull \<and> i = 0 \<or> (m = JStr ''movie'' \<or> m = JStr ''tv'') \<and> 0 < i)"
  by (auto simp add: entry_sound_def entry_written_def cache_entry_def dict_get_def)

lemma list_all_update:
  "list_all Q d \<Longrightarrow> Q (k, v) \<Longrightarrow> list_all Q (AList.update k v d)"
  by (induction d) auto

lemma entries_inv_init:
  "sc = JObj d \<Longrightarrow> list_all (\<lambda>kv. P (snd kv)) d \<Longrightarrow> entries_inv P qs (init_config w sc (length qs))"
  by (simp add: entries_inv_def init_config_def)

lemma entries_inv_step:
  assumes "P (cache_entry JNull 0)"
    and "\<And>q m i. resolve api q = Inr (Some (m, i)) \<Longrightarrow> P (cache_entry m i)"
    and "entries_inv P qs c"
  shows "entries_inv P qs (step api qs mw i c)"
proof (cases rule: step_cases[of api qs mw i c])
  case idle
  with assms(3) show ?thesis by simp
next
  case (act title year s sc' w')
  let ?c = "step api qs mw i c"
  from assms(3) obtain d where d: "cache c = JObj d" "list_all (\<lambda>kv. P (snd kv)) d"
    and st: "\<forall>j<length qs. \<forall>m i. workers c ! j = Searched (Some (m, i)) \<longrightarrow> P (cache_entry m i)"
    by (auto simp add: entries_inv_def)
  from st act(2) have sti: "\<forall>m n. workers c ! i = Searched (Some (m, n)) \<longrightarrow> P (cache_entry m n)"
    by simp
  from act(5) d sti assms(1,2)
  have "(\<exists>d'. sc' = JObj d' \<and> list_all (\<lambda>kv. P (snd kv)) d')
      \<and> (\<forall>m n. s = Searched (Some (m, n)) \<longrightarrow> P (cache_entry m n))"
    by (cases rule: worker_action_cases) (auto intro: list_all_update)
  then have a: "\<exists>d'. sc' = JObj d' \<and> list_all (\<lambda>kv. P (snd kv)) d'"
    and b: "\<forall>m n. s = Searched (Some (m, n)) \<longrightarrow> P (cache_entry m n)" by blast+
  have "\<forall>j<length qs. \<forall>m n. workers ?c ! j = Searched (Some (m, n)) \<longrightarrow> P (cache_entry m n)"
    using st b act(1,8) by (auto simp add: nth_list_update)
  with a act(7) show ?thesis by (simp add: entries_inv_def)
qed

lemma batch_entries:
  assumes "P (cache_entry JNull 0)"
    and "\<And>q m i. resolve api q = Inr (Some (m, i)) \<Longrightarrow> P (cache_entry m i)"
    and "cache_file_all P w"
  shows "cache_file_all P (snd (resolve_and_fetch_credits_parallel api qs max_workers sched w))"
proof (cases "max_workers \<le> 0")
  case True
  with assms(3) show ?thesis by (simp add: resolve_and_fetch_credits_parallel_def)
next
  case False
  let ?init = "init_config w (load_search_cache w) (length qs)"
  let ?c = "run_pool api qs (nat max_workers) sched ?init"
  from assms(3) obtain d where d: "load_search_cache w = JObj d" "list_all (\<lambda>kv. P (snd kv)) d"
    by (auto simp add: cache_file_all_def split: json.splits)
  have "entries_inv P qs ?c" unfolding run_pool_def
  proof (rule fold_step_invariant)
    show "entries_inv P qs ?init" using d by (rule entries_inv_init)
  next
    fix c' i assume "entries_inv P qs c'"
    with assms(1,2) show "entries_inv P qs (step api qs (nat max_workers) i c')"
      by (intro entries_inv_step[where P = P and api = api]) auto
  qed
  then obtain d' where d': "cache ?c = JObj d'" "list_all (\<lambda>kv. P (snd kv)) d'"
    by (auto simp add: entries_inv_def)
  have f: "search_cache_file (env ?c) = search_cache_file w"
    by (simp add: run_pool_search_cache_file init_config_def)
  show ?thesis
  proof (cases "collect (map snd (completed ?c)) [] []")
    case (Inl e)
    with False have "snd (resolve_and_fetch_credits_parallel api qs max_workers sched w) = env ?c"
      by (simp add: resolve_and_fetch_credits_parallel_def Let_def)
    with f assms(3) show ?thesis by (simp add: cache_file_all_def load_search_cache_def)
  next
    case (Inr r)
    with False have "snd (resolve_and_fetch_credits_parallel api qs max_workers sched w)
        = save_search_cache (env ?c) (cache ?c)"
      by (simp add: resolve_and_fetch_credits_parallel_def Let_def)
    with d' show ?thesis
      by (simp add: cache_file_all_def load_search_cache_def save_search_cache_def)
  qed
qed

lemma batches_entries:
  assumes "P (cache_entry JNull 0)"
    and "\<And>q m i. resolve api q = Inr (Some (m, i)) \<Longrightarrow> P (cache_entry m i)"
  shows "cache_file_all P w \<Longrightarrow> cache_file_all P (run_batches api bs w)"
proof (induction bs arbitrary: w)
  case Nil
  then show ?case by simp
next
  case (Cons b bs)
  obtain qs mw sched where b: "b = (qs, mw, sched)" by (cases b)
  from batch_entries[OF assms Cons.prems] Cons.IH b show ?case by simp
qed

text \<open>
  Claim C8, as the code has it. Starting from no search cache file, after any sequence of
  batches, under any schedules, every entry of the search cache has the type none with
  the id 0, or the type movie or series with the integer id of the candidate that was
  picked. That id is strictly positive when every candidate of the remote search has a
  strictly positive id; the code itself does not test it.
\<close>

theorem written_entries_invariant:
  assumes "search_cache_file w = None"
  shows "cache_file_all entry_written (run_batches api bs w)
    \<and> (positive_ids api \<longrightarrow> cache_file_all entry_sound (run_batches api bs w))"
proof -
  have e: "cache_file_all P w" for P
    using assms by (simp add: cache_file_all_def load_search_cache_def)
  have a: "cache_file_all entry_written (run_batches api bs w)"
    by (rule batches_entries[OF _ _ e]) (auto simp add: entry_written_entry dest: resolve_member)
  have b: "cache_file_all entry_sound (run_batches api bs w)" if "positive_ids api"
    by (rule batches_entries[OF _ _ e]) (use that in \<open>auto simp add: entry_sound_entry dest: resolve_member\<close>)
  from a b show ?thesis by blast
qed

lemma positive_api_ids: "positive_ids positive_api"
proof -
  have sr: "search_results (JObj [(''results'', JList [JObj sample_movie])]) = Inr [sample_movie]"
    by (simp add: search_results_def dict_get_default_def dict_get_def sample_movie_def)
  have "item_id sample_movie = Inr 27205"
    by (simp add: item_id_def dict_item_def sample_movie_def)
  with sr show ?thesis by (auto simp add: positive_ids_def positive_api_def)
qed

theorem written_entries_invariant_witness:
  "search_cache_file empty_world = None \<and> positive_ids positive_api
   \<and> cache_file_all entry_written
       (run_batches positive_api [([(''Inception'', Some 2010)], 12, [])] empty_world)
   \<and> cache_file_all entry_sound
       (run_batches positive_api [([(''Inception'', Some 2010)], 12, [])] empty_world)"
proof -
  have e: "search_cache_file empty_world = None" by (simp add: empty_world_def)
  from written_entries_invariant[OF e, of positive_api "[([(''Inception'', Some 2010)], 12, [])]"]
    e positive_api_ids
  show ?thesis by simp
qed

lemma sample_run_zero:
  "run_pool sample_api [(''Zero'', None)] 12 [] (init_config empty_world (JObj []) 1) =
   \<lparr>env = \<lparr>search_cache_file = None, title_files = Map.empty, calls = [SearchCall ''Zero'']\<rparr>,
     cache = JObj [(''zero|'', JObj [(''media_type'', JStr ''movie''), (''id'', JInt 0)])],
     workers = [Done (Inr (NO_MATCH ''Zero'' None))],
     completed = [(0, Inr (NO_MATCH ''Zero'' None))]\<rparr>"
  by (simp add: run_pool_def drain_simps init_simps empty_world_def run_simps del: fold_replicate)

text \<open>
  Against claim C8 as stated: the remote search answers with a movie whose id is 0. The
  worker writes the entry as it is, so after one batch from an empty cache the persisted
  search cache has an entry of type movie with the id 0.
\<close>

theorem written_entries_counterexample:
  "search_cache_file empty_world = None
   \<and> resolve_and_fetch_credits_parallel sample_api [(''Zero'', None)] 12 [] empty_world =
     (Inr ([], [no_match_item ''Zero'' None]),
      \<lparr>search_cache_file = Some (Parsed (JObj
          [(''zero|'', JObj [(''media_type'', JStr ''movie''), (''id'', JInt 0)])])),
       title_files = Map.empty, calls = [SearchCall ''Zero'']\<rparr>)
   \<and> \<not> entry_sound (JObj [(''media_type'', JStr ''movie''), (''id'', JInt 0)])"
proof -
  have n: "nat 12 = 12" "length [(''Zero'', None :: int option)] = 1" by simp_all
  have "resolve_and_fetch_credits_parallel sample_api [(''Zero'', None)] 12 [] empty_world =
     (Inr ([], [no_match_item ''Zero'' None]),
      \<lparr>search_cache_file = Some (Parsed (JObj
          [(''zero|'', JObj [(''media_type'', JStr ''movie''), (''id'', JInt 0)])])),
       title_files = Map.empty, calls = [SearchCall ''Zero'']\<rparr>)"
    unfolding resolve_and_fetch_credits_parallel_def n load_empty_world Let_def sample_run_zero
    by (simp add: save_search_cache_def)
  moreover have "\<not> entry_sound (JObj [(''media_type'', JStr ''movie''), (''id'', JInt 0)])"
    by (simp add: entry_sound_def dict_get_def)
  moreover have "search_cache_file empty_world = None" by (simp add: empty_world_def)
  ultimately show ?thesis by blast
qed

section \<open>Resolutions in the shared dict\<close>

lemma entry_of_not_null: "entry_of p \<noteq> JNull"
  by (cases p) (auto simp add: entry_of_def cache_entry_def)

lemma dict_get_Some: "dict_get d k = v \<Longrightarrow> v \<noteq> JNull \<Longrightarrow> map_of d k = Some v"
  by (auto simp add: dict_get_def split: option.splits)

lemma dict_get_present: "dict_get d k \<noteq> JNull \<Longrightarrow> \<exists>v. map_of d k = Some v \<and> v \<noteq> JNull"
  by (auto simp add: dict_get_def split: option.splits)

lemma entry_of_simps:
  "entry_of None = cache_entry JNull 0"
  "entry_of (Some (m, i)) = cache_entry m i"
  by (simp_all add: entry_of_def)

lemma res_inv_init:
  "res_inv api qs d0 (init_config w (JObj d0) (length qs))"
  by (simp add: res_inv_def init_config_def)

lemma res_inv_step:
  assumes "res_inv api qs d0 c"
  shows "res_inv api qs d0 (step api qs mw i c)"
proof (cases rule: step_cases[of api qs mw i c])
  case idle
  with assms show ?thesis by simp
next
  case (act title year s sc' w')
  let ?c = "step api qs mw i c"
  let ?k = "search_cache_key title year"
  from assms obtain d where d: "cache c = JObj d"
    and ds: "distinct (map fst d0) \<longrightarrow> distinct (map fst d)"
    and en: "\<forall>k. map_of d k = map_of d0 k
               \<or> (\<exists>j<length qs. query_key (qs ! j) = k
                     \<and> (\<exists>p. resolve api (qs ! j) = Inr p \<and> map_of d k = Some (entry_of p)))"
    and se: "\<forall>j<length qs. \<forall>p. workers c ! j = Searched p \<longrightarrow> resolve api (qs ! j) = Inr p"
    and st: "\<forall>j<length qs. settled (workers c ! j) \<longrightarrow>
               (\<exists>v. map_of d (query_key (qs ! j)) = Some v \<and> v \<noteq> JNull)"
    by (auto simp add: res_inv_def)
  have qk: "query_key (qs ! i) = ?k" using act(4) by (simp add: query_key_def)
  text \<open>The dict after the action is the old one, or the old one with the entry of the
    resolution of query \<open>i\<close> under its key.\<close>
  have "(sc' = JObj d \<and> (settled s \<longrightarrow> (\<exists>v. map_of d ?k = Some v \<and> v \<noteq> JNull)))
      \<or> (\<exists>p. resolve api (title, year) = Inr p \<and> sc' = JObj (AList.update ?k (entry_of p) d))"
    using act(5) d se st act(2,4) qk
  proof (cases rule: worker_action_cases)
    case (hit v m n)
    with d have "dict_get d ?k \<noteq> JNull" by (simp add: cache_get_def)
    with hit d show ?thesis by (auto dest: dict_get_present)
  next
    case (write_none d')
    with d se act(2,4) have "resolve api (title, year) = Inr None" by auto
    with write_none d show ?thesis by (auto simp add: entry_of_simps)
  next
    case (write_some d' m n)
    with d se act(2,4) have "resolve api (title, year) = Inr (Some (m, n))" by auto
    with write_some d show ?thesis by (auto simp add: entry_of_simps)
  next
    case (write_fail p)
    with d show ?thesis by simp
  qed (use d st act(2) qk in auto)
  moreover have "\<forall>p. s = Searched p \<longrightarrow> resolve api (title, year) = Inr p"
    using act(5) se act(2,4) by (cases rule: worker_action_cases) auto
  ultimately show ?thesis
  proof (elim disjE exE conjE)
    assume sc: "sc' = JObj d"
      and sti: "settled s \<longrightarrow> (\<exists>v. map_of d ?k = Some v \<and> v \<noteq> JNull)"
      and sei: "\<forall>p. s = Searched p \<longrightarrow> resolve api (title, year) = Inr p"
    have "\<forall>j<length qs. \<forall>p. workers ?c ! j = Searched p \<longrightarrow> resolve api (qs ! j) = Inr p"
      using se sei act(1,4,8) by (auto simp add: nth_list_update)
    moreover have "\<forall>j<length qs. settled (workers ?c ! j) \<longrightarrow>
               (\<exists>v. map_of d (query_key (qs ! j)) = Some v \<and> v \<noteq> JNull)"
      using st sti act(1,8) qk by (auto simp add: nth_list_update)
    ultimately show ?thesis using sc act(7) ds en by (auto simp add: res_inv_def)
  next
    fix p assume rp: "resolve api (title, year) = Inr p"
      and sc: "sc' = JObj (AList.update ?k (entry_of p) d)"
      and sei: "\<forall>p. s = Searched p \<longrightarrow> resolve api (title, year) = Inr p"
    let ?d = "AList.update ?k (entry_of p) d"
    have m: "map_of ?d = (map_of d)(?k \<mapsto> entry_of p)" by (simp add: update_conv')
    have a: "distinct (map fst d0) \<longrightarrow> distinct (map fst ?d)"
      using ds by (simp add: distinct_update)
    have b: "\<forall>k. map_of ?d k = map_of d0 k
               \<or> (\<exists>j<length qs. query_key (qs ! j) = k
                     \<and> (\<exists>p. resolve api (qs ! j) = Inr p \<and> map_of ?d k = Some (entry_of p)))"
    proof
      fix k
      show "map_of ?d k = map_of d0 k
               \<or> (\<exists>j<length qs. query_key (qs ! j) = k
                     \<and> (\<exists>p. resolve api (qs ! j) = Inr p \<and> map_of ?d k = Some (entry_of p)))"
      proof (cases "k = ?k")
        case True
        with rp act(2,4) qk m show ?thesis by auto
      next
        case False
        with en m show ?thesis by simp
      qed
    qed
    have c: "\<forall>j<length qs. \<forall>p. workers ?c ! j = Searched p \<longrightarrow> resolve api (qs ! j) = Inr p"
      using se sei act(1,4,8) by (auto simp add: nth_list_update)
    have e: "\<forall>j<length qs. settled (workers ?c ! j) \<longrightarrow>
               (\<exists>v. map_of ?d (query_key (qs ! j)) = Some v \<and> v \<noteq> JNull)"
    proof (intro allI impI)
      fix j assume j: "j < length qs" "settled (workers ?c ! j)"
      show "\<exists>v. map_of ?d (query_key (qs ! j)) = Some v \<and> v \<noteq> JNull"
      proof (cases "query_key (qs ! j) = ?k")
        case True
        with m show ?thesis by (simp add: entry_of_not_null)
      next
        case False
        with qk have "j \<noteq> i" by auto
        with j act(8) st False m show ?thesis by simp
      qed
    qed
    from a b c e sc act(7) show ?thesis by (auto simp add: res_inv_def)
  qed
qed

section \<open>Counting the search requests\<close>

lemma length_filter_update:
  "i < length xs \<Longrightarrow>
     length (filter P (xs[i := y])) + (if P (xs ! i) then 1 else 0)
       = length (filter P xs) + (if P y then 1 else 0)"
proof (induction xs arbitrary: i)
  case Nil
  then show ?case by simp
next
  case (Cons x xs)
  then show ?case by (cases i) auto
qed

lemma search_calls_log [simp]:
  "search_calls (w\<lparr>calls := calls w @ [SearchCall t]\<rparr>) = Suc (search_calls w)"
  "search_calls (log_fetch w mt i) = search_calls w"
  "search_calls (save_title_to_cache w mt i p) = search_calls w"
  "search_calls (save_search_cache w sc) = search_calls w"
  by (simp_all add: search_calls_def log_fetch_def save_title_to_cache_def save_search_cache_def)

text \<open>An action sends a search request only by taking a worker out of the pending
  states, and no action takes a request back.\<close>

lemma worker_action_count:
  assumes "worker_action api (title, year) s sc w = (s', sc', w')"
  shows "search_calls w' + (if pending s' then 1 else 0)
           \<le> search_calls w + (if pending s then 1 else 0)"
    and "search_calls w \<le> search_calls w'"
    and "s = Missed \<Longrightarrow> search_calls w' = Suc (search_calls w)"
  using assms by (cases rule: worker_action_cases; simp)+

lemma step_count:
  "search_calls (env (step api qs mw i c)) + length (filter pending (workers (step api qs mw i c)))
     \<le> search_calls (env c) + length (filter pending (workers c))"
proof (cases rule: step_cases[of api qs mw i c])
  case idle
  then show ?thesis by simp
next
  case (act title year s sc' w')
  from worker_action_count(1)[OF act(5)] length_filter_update[OF act(1), of pending s] act(6,8)
  show ?thesis by (simp split: if_splits)
qed

lemma step_calls_mono: "search_calls (env c) \<le> search_calls (env (step api qs mw i c))"
proof (cases rule: step_cases[of api qs mw i c])
  case idle
  then show ?thesis by simp
next
  case (act title year s sc' w')
  from worker_action_count(2)[OF act(5)] act(6) show ?thesis by simp
qed

lemma run_pool_count:
  "search_calls (env (run_pool api qs mw sched (init_config w sc (length qs))))
     \<le> search_calls w + length qs"
proof -
  let ?init = "init_config w sc (length qs)"
  have "search_calls (env (run_pool api qs mw sched ?init))
          + length (filter pending (workers (run_pool api qs mw sched ?init)))
        \<le> search_calls w + length qs"
    unfolding run_pool_def
  proof (rule fold_step_invariant)
    show "search_calls (env ?init) + length (filter pending (workers ?init)) \<le> search_calls w + length qs"
      by (simp add: init_config_def)
  next
    fix c :: config and i
    assume "search_calls (env c) + length (filter pending (workers c)) \<le> search_calls w + length qs"
    with step_count[of api qs mw i c]
    show "search_calls (env (step api qs mw i c)) + length (filter pending (workers (step api qs mw i c)))
        \<le> search_calls w + length qs" by linarith
  qed
  then show ?thesis by linarith
qed

text \<open>When no query of the batch has its key in the loaded dict, some worker searches.\<close>

lemma first_search_step:
  assumes keys: "\<forall>j<length qs. query_key (qs ! j) = k"
    and inv: "(\<forall>j<length qs. workers c ! j = Queued) \<and> cache_get (cache c) k = Inr JNull
        \<or> (\<exists>j<length qs. workers c ! j = Missed)
        \<or> search_calls w0 < search_calls (env c)"
    and mono: "search_calls w0 \<le> search_calls (env c)"
  shows "(\<forall>j<length qs. workers (step api qs mw i c) ! j = Queued)
          \<and> cache_get (cache (step api qs mw i c)) k = Inr JNull
        \<or> (\<exists>j<length qs. workers (step api qs mw i c) ! j = Missed)
        \<or> search_calls w0 < search_calls (env (step api qs mw i c))"
proof (cases rule: step_cases[of api qs mw i c])
  case idle
  with inv show ?thesis by simp
next
  case (act title year s sc' w')
  let ?c = "step api qs mw i c"
  from keys act(2,4) have k: "search_cache_key title year = k" by (auto simp add: query_key_def)
  from inv show ?thesis
  proof (elim disjE)
    assume a: "(\<forall>j<length qs. workers c ! j = Queued) \<and> cache_get (cache c) k = Inr JNull"
    with act(2) have "workers c ! i = Queued" by simp
    with act(5) a k have "s = Missed" by (cases rule: worker_action_cases) auto
    with act(1,2,8) have "workers ?c ! i = Missed" by simp
    with act(2) show ?thesis by blast
  next
    assume "\<exists>j<length qs. workers c ! j = Missed"
    then obtain j where j: "j < length qs" "workers c ! j = Missed" by blast
    show ?thesis
    proof (cases "j = i")
      case True
      with j worker_action_count(3)[OF act(5)] act(6)
      have "search_calls (env ?c) = Suc (search_calls (env c))" by simp
      with mono show ?thesis by simp
    next
      case False
      with j act(8) have "workers ?c ! j = Missed" by simp
      with j show ?thesis by blast
    qed
  next
    assume "search_calls w0 < search_calls (env c)"
    with step_calls_mono[of c api qs mw i] show ?thesis by simp
  qed
qed

lemma collect_all_returned:
  "collect rs xs ys = Inr res \<Longrightarrow> r \<in> set rs \<Longrightarrow> \<exists>ob. r = Inr ob"
  using collect_raises[of _ rs xs ys] by (cases r) auto

lemma result_world_calls:
  assumes "0 < max_workers"
  shows "search_calls (snd (resolve_and_fetch_credits_parallel api qs max_workers sched w))
    = search_calls (env (run_pool api qs (nat max_workers) sched
        (init_config w (load_search_cache w) (length qs))))"
  using assms
  by (cases "collect (map snd (completed (run_pool api qs (nat max_workers) sched
        (init_config w (load_search_cache w) (length qs))))) [] []")
    (simp_all add: resolve_and_fetch_credits_parallel_def Let_def)

text \<open>
  Claim C9, as the code has it. The lock is held for the read of the dict and again for
  the write, not from the one to the other. Two queries of a batch share a key that the
  loaded cache does not hold. Under every schedule the batch sends at least one and at
  most two search requests. If it returns, the persisted cache has, under the key, the
  entry of what the search of one of the two queries resolved to, and its keys are as
  distinct as they were.
\<close>

theorem same_key_search_calls:
  assumes "0 < max_workers" "query_key q0 = query_key q1"
    and "load_search_cache w = JObj d0" "dict_get d0 (query_key q0) = JNull"
  shows "search_calls w + 1
           \<le> search_calls (snd (resolve_and_fetch_credits_parallel api [q0, q1] max_workers sched w))
    \<and> search_calls (snd (resolve_and_fetch_credits_parallel api [q0, q1] max_workers sched w))
           \<le> search_calls w + 2
    \<and> (\<forall>r. fst (resolve_and_fetch_credits_parallel api [q0, q1] max_workers sched w) = Inr r \<longrightarrow>
          (\<exists>d p. search_cache_file (snd (resolve_and_fetch_credits_parallel api [q0, q1]
                                             max_workers sched w)) = Some (Parsed (JObj d))
             \<and> (resolve api q0 = Inr p \<or> resolve api q1 = Inr p)
             \<and> map_of d (query_key q0) = Some (entry_of p)
             \<and> (distinct (map fst d0) \<longrightarrow> distinct (map fst d))))"
proof -
  let ?qs = "[q0, q1]"
  let ?k = "query_key q0"
  let ?mw = "nat max_workers"
  let ?init = "init_config w (load_search_cache w) (length ?qs)"
  let ?c = "run_pool api ?qs ?mw sched ?init"
  let ?R = "resolve_and_fetch_credits_parallel api ?qs max_workers sched w"
  from assms(1) have mw: "0 < ?mw" by simp
  have keys: "\<forall>j<length ?qs. query_key (?qs ! j) = ?k"
    using assms(2) by (auto simp add: less_Suc_eq)
  from run_pool_done[OF mw refl, where api = api and qs = ?qs and sched = sched and w = w
      and sc = "load_search_cache w"]
  have ok: "pool_ok (length ?qs) ?c" and dn: "\<forall>j<length ?qs. is_done (workers ?c ! j)"
    by blast+
  have calls: "search_calls (snd ?R) = search_calls (env ?c)"
    using assms(1) by (rule result_world_calls)
  have upper: "search_calls (env ?c) \<le> search_calls w + 2"
    using run_pool_count[of api ?qs ?mw sched w "load_search_cache w"] by simp
  have "((\<forall>j<length ?qs. workers ?c ! j = Queued) \<and> cache_get (cache ?c) ?k = Inr JNull
        \<or> (\<exists>j<length ?qs. workers ?c ! j = Missed)
        \<or> search_calls w < search_calls (env ?c))
      \<and> search_calls w \<le> search_calls (env ?c)"
    unfolding run_pool_def
  proof (rule fold_step_invariant)
    show "((\<forall>j<length ?qs. workers ?init ! j = Queued) \<and> cache_get (cache ?init) ?k = Inr JNull
        \<or> (\<exists>j<length ?qs. workers ?init ! j = Missed)
        \<or> search_calls w < search_calls (env ?init))
      \<and> search_calls w \<le> search_calls (env ?init)"
      using assms(3,4) by (simp add: init_config_def cache_get_def less_Suc_eq)
  next
    fix c :: config and i
    assume a: "((\<forall>j<length ?qs. workers c ! j = Queued) \<and> cache_get (cache c) ?k = Inr JNull
        \<or> (\<exists>j<length ?qs. workers c ! j = Missed)
        \<or> search_calls w < search_calls (env c))
      \<and> search_calls w \<le> search_calls (env c)"
    then have l: "(\<forall>j<length ?qs. workers c ! j = Queued) \<and> cache_get (cache c) ?k = Inr JNull
        \<or> (\<exists>j<length ?qs. workers c ! j = Missed)
        \<or> search_calls w < search_calls (env c)"
      and m: "search_calls w \<le> search_calls (env c)" by blast+
    have m': "search_calls w \<le> search_calls (env (step api ?qs ?mw i c))"
      using step_calls_mono[of c api ?qs ?mw i] m by linarith
    from first_search_step[OF keys l m, of api ?mw i] m'
    show "((\<forall>j<length ?qs. workers (step api ?qs ?mw i c) ! j = Queued)
          \<and> cache_get (cache (step api ?qs ?mw i c)) ?k = Inr JNull
        \<or> (\<exists>j<length ?qs. workers (step api ?qs ?mw i c) ! j = Missed)
        \<or> search_calls w < search_calls (env (step api ?qs ?mw i c)))
      \<and> search_calls w \<le> search_calls (env (step api ?qs ?mw i c))"
      by blast
  qed
  with dn have lower: "search_calls w < search_calls (env ?c)"
    by (auto simp add: less_Suc_eq)
  have entry: "\<exists>d p. search_cache_file (snd ?R) = Some (Parsed (JObj d))
             \<and> (resolve api q0 = Inr p \<or> resolve api q1 = Inr p)
             \<and> map_of d ?k = Some (entry_of p)
             \<and> (distinct (map fst d0) \<longrightarrow> distinct (map fst d))"
    if r: "fst ?R = Inr r" for r
  proof -
    from r assms(1) have col: "collect (map snd (completed ?c)) [] [] = Inr r"
      and w': "snd ?R = save_search_cache (env ?c) (cache ?c)"
      by (auto simp add: resolve_and_fetch_credits_parallel_def Let_def split: sum.splits)
    from dn obtain r0 where r0: "workers ?c ! 0 = Done r0"
      by (cases "workers ?c ! 0") auto
    with ok have "(0, r0) \<in> set (completed ?c)" by (simp add: pool_ok_def)
    then have "r0 \<in> set (map snd (completed ?c))" by force
    with col obtain ob where "r0 = Inr ob" using collect_all_returned by blast
    with r0 have s0: "settled (workers ?c ! 0)" by simp
    have "res_inv api ?qs d0 ?c" unfolding run_pool_def assms(3)
      by (rule fold_step_invariant) (simp_all only: res_inv_init res_inv_step)
    then obtain d where d: "cache ?c = JObj d"
      and ds: "distinct (map fst d0) \<longrightarrow> distinct (map fst d)"
      and en: "\<forall>k. map_of d k = map_of d0 k
               \<or> (\<exists>j<length ?qs. query_key (?qs ! j) = k
                     \<and> (\<exists>p. resolve api (?qs ! j) = Inr p \<and> map_of d k = Some (entry_of p)))"
      and st: "\<forall>j<length ?qs. settled (workers ?c ! j) \<longrightarrow>
               (\<exists>v. map_of d (query_key (?qs ! j)) = Some v \<and> v \<noteq> JNull)"
      by (auto simp add: res_inv_def)
    from st s0 obtain v where v: "map_of d ?k = Some v" "v \<noteq> JNull" by auto
    with assms(4) have "map_of d ?k \<noteq> map_of d0 ?k"
      by (auto simp add: dict_get_def split: option.splits)
    with en obtain j p where j: "j < length ?qs" "resolve api (?qs ! j) = Inr p"
      "map_of d ?k = Some (entry_of p)" by blast
    from j(1,2) have "resolve api q0 = Inr p \<or> resolve api q1 = Inr p"
      by (auto simp add: less_Suc_eq)
    with j(3) ds d w' show ?thesis by (auto simp add: save_search_cache_def)
  qed
  from calls upper lower entry show ?thesis by auto
qed

text \<open>Twice the same query. Under the schedule \<open>[0, 1]\<close> both workers read the dict
  before either writes; run one after the other, the second finds the entry of the
  first.\<close>

lemma sample_run_twice_interleaved:
  "run_pool sample_api [(''Inception'', Some 2010), (''Inception'', Some 2010)] 12 [0, 1]
     (init_config empty_world (JObj []) 2) =
   \<lparr>env = \<lparr>search_cache_file = None,
           title_files = [''.cache/titles/movie_27205.json'' \<mapsto>
             Parsed (JObj [(''runtime'', JInt 148), (''_media_type'', JStr ''movie''),
                           (''_normalized_runtime'', JInt 148)])],
           calls = [SearchCall ''Inception'', FetchCall ''movie'' 27205, SearchCall ''Inception'']\<rparr>,
     cache = JObj [(''inception|2010'', JObj [(''media_type'', JStr ''movie''), (''id'', JInt 27205)])],
     workers = [Done (Inr (OK (JObj [(''runtime'', JInt 148), (''_media_type'', JStr ''movie''),
                                     (''_normalized_runtime'', JInt 148)]))),
                Done (Inr (OK (JObj [(''runtime'', JInt 148), (''_media_type'', JStr ''movie''),
                                     (''_normalized_runtime'', JInt 148)])))],
     completed = [(0, Inr (OK (JObj [(''runtime'', JInt 148), (''_media_type'', JStr ''movie''),
                                     (''_normalized_runtime'', JInt 148)]))),
                  (1, Inr (OK (JObj [(''runtime'', JInt 148), (''_media_type'', JStr ''movie''),
                                     (''_normalized_runtime'', JInt 148)])))]\<rparr>"
  by (simp add: run_pool_def drain_simps init_simps empty_world_def run_simps Let_def
      del: fold_replicate)

lemma sample_run_twice_sequential:
  "run_pool sample_api [(''Inception'', Some 2010), (''Inception'', Some 2010)] 12 []
     (init_config empty_world (JObj []) 2) =
   \<lparr>env = \<lparr>search_cache_file = None,
           title_files = [''.cache/titles/movie_27205.json'' \<mapsto>
             Parsed (JObj [(''runtime'', JInt 148), (''_media_type'', JStr ''movie''),
                           (''_normalized_runtime'', JInt 148)])],
           calls = [SearchCall ''Inception'', FetchCall ''movie'' 27205]\<rparr>,
     cache = JObj [(''inception|2010'', JObj [(''media_type'', JStr ''movie''), (''id'', JInt 27205)])],
     workers = [Done (Inr (OK (JObj [(''runtime'', JInt 148), (''_media_type'', JStr ''movie''),
                                     (''_normalized_runtime'', JInt 148)]))),
                Done (Inr (OK (JObj [(''runtime'', JInt 148), (''_media_type'', JStr ''movie''),
                                     (''_normalized_runtime'', JInt 148)])))],
     completed = [(0, Inr (OK (JObj [(''runtime'', JInt 148), (''_media_type'', JStr ''movie''),
                                     (''_normalized_runtime'', JInt 148)]))),
                  (1, Inr (OK (JObj [(''runtime'', JInt 148), (''_media_type'', JStr ''movie''),
                                     (''_normalized_runtime'', JInt 148)])))]\<rparr>"
  by (simp add: run_pool_def drain_simps init_simps empty_world_def run_simps Let_def
      del: fold_replicate)

theorem same_key_search_calls_witness:
  "(0::int) < 12
   \<and> query_key (''Inception'', Some 2010) = query_key (''Inception'', Some 2010)
   \<and> load_search_cache empty_world = JObj []
   \<and> dict_get [] (query_key (''Inception'', Some 2010)) = JNull
   \<and> search_calls empty_world + 1
        \<le> search_calls (snd (resolve_and_fetch_credits_parallel sample_api
             [(''Inception'', Some 2010), (''Inception'', Some 2010)] 12 [] empty_world))
   \<and> search_calls (snd (resolve_and_fetch_credits_parallel sample_api
             [(''Inception'', Some 2010), (''Inception'', Some 2010)] 12 [] empty_world))
        \<le> search_calls empty_world + 2
   \<and> search_calls (snd (resolve_and_fetch_credits_parallel sample_api
             [(''Inception'', Some 2010), (''Inception'', Some 2010)] 12 [] empty_world)) = 1
   \<and> fst (resolve_and_fetch_credits_parallel sample_api
             [(''Inception'', Some 2010), (''Inception'', Some 2010)] 12 [] empty_world)
      = Inr ([JObj [(''runtime'', JInt 148), (''_media_type'', JStr ''movie''),
               (''_normalized_runtime'', JInt 148)],
              JObj [(''runtime'', JInt 148), (''_media_type'', JStr ''movie''),
                (''_normalized_runtime'', JInt 148)]], [])"
proof -
  have n: "nat 12 = 12"
    "length [(''Inception'', Some (2010::int)), (''Inception'', Some 2010)] = 2" by simp_all
  have h: "(0::int) < 12" "dict_get [] (query_key (''Inception'', Some 2010)) = JNull"
    by (simp_all add: dict_get_def)
  have one: "search_calls (snd (resolve_and_fetch_credits_parallel sample_api
             [(''Inception'', Some 2010), (''Inception'', Some 2010)] 12 [] empty_world)) = 1"
    unfolding result_world_calls[OF h(1)] n load_empty_world sample_run_twice_sequential
    by (simp add: search_calls_def)
  have res: "fst (resolve_and_fetch_credits_parallel sample_api
             [(''Inception'', Some 2010), (''Inception'', Some 2010)] 12 [] empty_world)
      = Inr ([JObj [(''runtime'', JInt 148), (''_media_type'', JStr ''movie''),
               (''_normalized_runtime'', JInt 148)],
              JObj [(''runtime'', JInt 148), (''_media_type'', JStr ''movie''),
                (''_normalized_runtime'', JInt 148)]], [])"
    unfolding resolve_and_fetch_credits_parallel_def n load_empty_world Let_def
      sample_run_twice_sequential
    by simp
  from same_key_search_calls[OF h(1) refl load_empty_world h(2), of sample_api "[]"]
    h load_empty_world one res
  show ?thesis by simp
qed

text \<open>
  Against claim C9 as stated: two units with the same uncached key, each reading the dict
  before the other writes. Both search; the log holds two search requests.
\<close>

theorem same_key_search_calls_counterexample:
  "query_key (''Inception'', Some 2010) = ''inception|2010''
   \<and> load_search_cache empty_world = JObj []
   \<and> calls (snd (resolve_and_fetch_credits_parallel sample_api
        [(''Inception'', Some 2010), (''Inception'', Some 2010)] 12 [0, 1] empty_world))
      = [SearchCall ''Inception'', FetchCall ''movie'' 27205, SearchCall ''Inception'']
   \<and> search_calls (snd (resolve_and_fetch_credits_parallel sample_api
        [(''Inception'', Some 2010), (''Inception'', Some 2010)] 12 [0, 1] empty_world)) = 2"
proof -
  have n: "nat 12 = 12"
    "length [(''Inception'', Some (2010::int)), (''Inception'', Some 2010)] = 2" by simp_all
  have c: "calls (snd (resolve_and_fetch_credits_parallel sample_api
        [(''Inception'', Some 2010), (''Inception'', Some 2010)] 12 [0, 1] empty_world))
      = [SearchCall ''Inception'', FetchCall ''movie'' 27205, SearchCall ''Inception'']"
    unfolding resolve_and_fetch_credits_parallel_def n load_empty_world Let_def
      sample_run_twice_interleaved
    by (simp add: save_search_cache_def)
  then have "search_calls (snd (resolve_and_fetch_credits_parallel sample_api
        [(''Inception'', Some 2010), (''Inception'', Some 2010)] 12 [0, 1] empty_world)) = 2"
    by (simp add: search_calls_def)
  with c load_empty_world show ?thesis by (simp add: query_key_def key_simps)
qed

end
